theory Spec2Isabelle
  imports Main "HOL-Library.AList" "HOL-Library.Multiset" "HOL-Library.Product_Lexorder"
begin

section \<open>JavaScript numbers\<close>

text \<open>
  The engine of \<^verbatim>\<open>src/lib/room-finder.ts\<close> computes with JavaScript numbers. Every number
  it meets on well-formed data is an integer far below \<open>2^53\<close>, where the arithmetic of
  doubles is exact, so a number is modelled as an integer or \<open>NaN\<close>. \<open>NaN\<close> is kept because
  the conversion of a malformed time string produces it, and because every comparison
  with it is false.
\<close>

datatype jsnum = Num int | NaN

fun js_add :: "jsnum \<Rightarrow> jsnum \<Rightarrow> jsnum" where
  "js_add (Num a) (Num b) = Num (a + b)"
| "js_add _ _ = NaN"

fun js_sub :: "jsnum \<Rightarrow> jsnum \<Rightarrow> jsnum" where
  "js_sub (Num a) (Num b) = Num (a - b)"
| "js_sub _ _ = NaN"

fun js_mul :: "jsnum \<Rightarrow> jsnum \<Rightarrow> jsnum" where
  "js_mul (Num a) (Num b) = Num (a * b)"
| "js_mul _ _ = NaN"

fun js_lt :: "jsnum \<Rightarrow> jsnum \<Rightarrow> bool" where
  "js_lt (Num a) (Num b) = (a < b)"
| "js_lt _ _ = False"

fun js_le :: "jsnum \<Rightarrow> jsnum \<Rightarrow> bool" where
  "js_le (Num a) (Num b) = (a \<le> b)"
| "js_le _ _ = False"

fun js_gt :: "jsnum \<Rightarrow> jsnum \<Rightarrow> bool" where
  "js_gt (Num a) (Num b) = (a > b)"
| "js_gt _ _ = False"

fun js_ge :: "jsnum \<Rightarrow> jsnum \<Rightarrow> bool" where
  "js_ge (Num a) (Num b) = (a \<ge> b)"
| "js_ge _ _ = False"

text \<open>\<^verbatim>\<open>a !== b\<close> on numbers: \<open>NaN\<close> differs from everything, itself included.\<close>

fun js_strict_neq :: "jsnum \<Rightarrow> jsnum \<Rightarrow> bool" where
  "js_strict_neq (Num a) (Num b) = (a \<noteq> b)"
| "js_strict_neq _ _ = True"

text \<open>\<^verbatim>\<open>Math.max\<close> and \<^verbatim>\<open>Math.min\<close> return \<open>NaN\<close> as soon as one argument is \<open>NaN\<close>.\<close>

fun js_max :: "jsnum \<Rightarrow> jsnum \<Rightarrow> jsnum" where
  "js_max (Num a) (Num b) = Num (max a b)"
| "js_max _ _ = NaN"

fun js_min :: "jsnum \<Rightarrow> jsnum \<Rightarrow> jsnum" where
  "js_min (Num a) (Num b) = Num (min a b)"
| "js_min _ _ = NaN"

text \<open>Truthiness of a number: \<open>0\<close> and \<open>NaN\<close> are falsy.\<close>

fun js_truthy_num :: "jsnum \<Rightarrow> bool" where
  "js_truthy_num (Num a) = (a \<noteq> 0)"
| "js_truthy_num NaN = False"

text \<open>The integer held by a number; it has no value at \<open>NaN\<close>.\<close>

fun the_Num :: "jsnum \<Rightarrow> int" where
  "the_Num (Num a) = a"


section \<open>JavaScript strings\<close>

definition is_digit :: "char \<Rightarrow> bool" where
  "is_digit c = (48 \<le> (of_char c :: nat) \<and> (of_char c :: nat) \<le> 57)"

definition digit_val :: "char \<Rightarrow> int" where
  "digit_val c = int (of_char c) - 48"

definition decimal_val :: "string \<Rightarrow> int" where
  "decimal_val s = foldl (\<lambda>acc c. acc * 10 + digit_val c) 0 s"

text \<open>White space of the ASCII range: tab, line feed, vertical tab, form feed, carriage
  return, space.\<close>

definition is_space :: "char \<Rightarrow> bool" where
  "is_space c = ((of_char c :: nat) \<in> {9, 10, 11, 12, 13, 32})"

definition trim :: "string \<Rightarrow> string" where
  "trim s = rev (dropWhile is_space (rev (dropWhile is_space s)))"

text \<open>
  \<^verbatim>\<open>Number(s)\<close> on a string: white space is trimmed, the empty string is \<open>0\<close>, an optionally
  signed run of decimal digits is that integer, and a string that is no numeric literal is
  \<open>NaN\<close>. The model covers the integer literals in decimal notation, and is exact as
  long as the integer is below \<open>2^53\<close>, beyond which JavaScript rounds. Literals with a
  fraction, an exponent or a radix prefix, and \<^verbatim>\<open>Infinity\<close>, denote numbers in JavaScript
  and lie outside the modelled fragment. The theorems are about runs of at most 14
  digits, or about strings that have no colon or no digit at all.
\<close>

definition js_Number :: "string \<Rightarrow> jsnum" where
  "js_Number s =
     (case trim s of
        [] \<Rightarrow> Num 0
      | c # ds \<Rightarrow>
          if c = CHR ''-'' \<and> ds \<noteq> [] \<and> list_all is_digit ds then Num (- decimal_val ds)
          else if c = CHR ''+'' \<and> ds \<noteq> [] \<and> list_all is_digit ds then Num (decimal_val ds)
          else if list_all is_digit (c # ds) then Num (decimal_val (c # ds))
          else NaN)"

text \<open>\<^verbatim>\<open>s.split(c)\<close> for a one-character separator: the pieces between the separators,
  at least one piece.\<close>

fun split_on :: "char \<Rightarrow> string \<Rightarrow> string list" where
  "split_on c [] = [[]]"
| "split_on c (x # xs) =
     (if x = c then [] # split_on c xs
      else (case split_on c xs of
              [] \<Rightarrow> [[x]]
            | p # ps \<Rightarrow> (x # p) # ps))"

text \<open>\<^verbatim>\<open>n.toString()\<close> for an integer.\<close>

fun digits_of :: "nat \<Rightarrow> string" where
  "digits_of n =
     (if n < 10 then [char_of (48 + n)]
      else digits_of (n div 10) @ [char_of (48 + n mod 10)])"

definition js_toString :: "int \<Rightarrow> string" where
  "js_toString n = (if n < 0 then CHR ''-'' # digits_of (nat (- n)) else digits_of (nat n))"

text \<open>\<^verbatim>\<open>s.padStart(2, '0')\<close>.\<close>

definition padStart2 :: "string \<Rightarrow> string" where
  "padStart2 s = replicate (2 - length s) (CHR ''0'') @ s"

text \<open>The remainder \<^verbatim>\<open>a % b\<close> of JavaScript takes the sign of the dividend.\<close>

definition js_rem :: "int \<Rightarrow> int \<Rightarrow> int" where
  "js_rem a b = (if a < 0 then - ((- a) mod \<bar>b\<bar>) else a mod \<bar>b\<bar>)"


section \<open>Time utilities\<close>

text \<open>
  \<^verbatim>\<open>
  function timeToMinutes(time: string): number {
      const [hours, minutes] = time.split(':').map(Number);
      return hours * 60 + minutes;
  }
  \<close>
  When the string has no colon, \<^verbatim>\<open>minutes\<close> is \<^verbatim>\<open>undefined\<close> and the sum is \<open>NaN\<close>. Pieces
  after the second are ignored. Nothing is thrown on any string.
\<close>

definition timeToMinutes :: "string \<Rightarrow> jsnum" where
  "timeToMinutes time =
     (case map js_Number (split_on (CHR '':'') time) of
        hours # minutes # _ \<Rightarrow> js_add (js_mul hours (Num 60)) minutes
      | _ \<Rightarrow> NaN)"

text \<open>
  \<^verbatim>\<open>
  function minutesToTime(minutes: number): string {
      const hours = Math.floor(minutes / 60);
      const mins = minutes % 60;
      return `${hours.toString().padStart(2, '0')}:${mins.toString().padStart(2, '0')}`;
  }
  \<close>
\<close>

fun minutesToTime :: "jsnum \<Rightarrow> string" where
  "minutesToTime (Num minutes) =
     padStart2 (js_toString (minutes div 60)) @ '':'' @ padStart2 (js_toString (js_rem minutes 60))"
| "minutesToTime NaN = ''NaN:NaN''"


section \<open>Data model\<close>

text \<open>
  \<^verbatim>\<open>
  export interface TimeSlot { start: string; end: string; }
  export interface RoomSchedule { room: string; day: string; occupied: TimeSlot[]; }
  export interface FreeRoom { room: string; day: string; freeFrom: string;
                              freeTill: string; duration: number; }
  export const OPERATING_HOURS = { start: '09:00', end: '19:30' } as const;
  \<close>
  The field \<^verbatim>\<open>end\<close> is named \<open>end_time\<close>, and the fields of \<^verbatim>\<open>FreeRoom\<close> carry the prefix
  \<open>fr_\<close>, since a record field is a constant of the theory.
\<close>

record TimeSlot =
  start :: string
  end_time :: string

record RoomSchedule =
  room :: string
  day :: string
  occupied :: "TimeSlot list"

record FreeRoom =
  fr_room :: string
  fr_day :: string
  freeFrom :: string
  freeTill :: string
  duration :: jsnum

definition OPERATING_HOURS :: TimeSlot where
  "OPERATING_HOURS = \<lparr>start = ''09:00'', end_time = ''19:30''\<rparr>"


section \<open>Sorting with a comparator\<close>

text \<open>
  \<^verbatim>\<open>Array.prototype.sort(cmp)\<close> is stable, and a comparator result that is \<open>NaN\<close> counts as
  \<open>0\<close>. Insertion from the right gives the stable order: an element moves behind a later
  one only when the comparator says it is greater. For a consistent comparator every
  stable sort returns this list.
\<close>

fun insort_cmp :: "('a \<Rightarrow> 'a \<Rightarrow> jsnum) \<Rightarrow> 'a \<Rightarrow> 'a list \<Rightarrow> 'a list" where
  "insort_cmp cmp x [] = [x]"
| "insort_cmp cmp x (y # ys) =
     (if js_gt (cmp x y) (Num 0) then y # insort_cmp cmp x ys else x # y # ys)"

definition js_sort :: "('a \<Rightarrow> 'a \<Rightarrow> jsnum) \<Rightarrow> 'a list \<Rightarrow> 'a list" where
  "js_sort cmp xs = foldr (insort_cmp cmp) xs []"


section \<open>Interval merger and free-slot deriver\<close>

text \<open>
  The first loop of \<^verbatim>\<open>findFreeSlots\<close> (lines 55 to 73): clip each slot of the sorted list
  to the window, skip it when nothing is left, and either extend the last merged slot or
  push a new one.
  \<^verbatim>\<open>
  for (const slot of sorted) {
      const slotStart = Math.max(timeToMinutes(slot.start), startMinutes);
      const slotEnd = Math.min(timeToMinutes(slot.end), endMinutes);
      if (slotStart >= slotEnd) continue;
      if (mergedOccupied.length === 0) {
          mergedOccupied.push({ start: minutesToTime(slotStart), end: minutesToTime(slotEnd) });
      } else {
          const last = mergedOccupied[mergedOccupied.length - 1];
          const lastEnd = timeToMinutes(last.end);
          if (slotStart <= lastEnd) {
              last.end = minutesToTime(Math.max(lastEnd, slotEnd));
          } else {
              mergedOccupied.push({ start: minutesToTime(slotStart), end: minutesToTime(slotEnd) });
          }
      }
  }
  \<close>
\<close>

fun merge_loop :: "jsnum \<Rightarrow> jsnum \<Rightarrow> TimeSlot list \<Rightarrow> TimeSlot list \<Rightarrow> TimeSlot list" where
  "merge_loop startMinutes endMinutes mergedOccupied [] = mergedOccupied"
| "merge_loop startMinutes endMinutes mergedOccupied (slot # sortedSlots) =
     (let slotStart = js_max (timeToMinutes (start slot)) startMinutes;
          slotEnd = js_min (timeToMinutes (end_time slot)) endMinutes
      in if js_ge slotStart slotEnd then merge_loop startMinutes endMinutes mergedOccupied sortedSlots
         else if mergedOccupied = [] then
           merge_loop startMinutes endMinutes
             [\<lparr>start = minutesToTime slotStart, end_time = minutesToTime slotEnd\<rparr>] sortedSlots
         else
           (let lastSlot = last mergedOccupied;
                lastEnd = timeToMinutes (end_time lastSlot)
            in if js_le slotStart lastEnd then
                 merge_loop startMinutes endMinutes
                   (butlast mergedOccupied
                      @ [lastSlot\<lparr>end_time := minutesToTime (js_max lastEnd slotEnd)\<rparr>]) sortedSlots
               else
                 merge_loop startMinutes endMinutes
                   (mergedOccupied
                      @ [\<lparr>start = minutesToTime slotStart, end_time = minutesToTime slotEnd\<rparr>])
                   sortedSlots))"

text \<open>
  The interval merger: lines 46 to 73 of \<^verbatim>\<open>findFreeSlots\<close>, whose result is the local
  \<^verbatim>\<open>mergedOccupied\<close>.
\<close>

definition mergeOccupied :: "TimeSlot list \<Rightarrow> string \<Rightarrow> string \<Rightarrow> TimeSlot list" where
  "mergeOccupied occupiedSlots operatingStart operatingEnd =
     (let startMinutes = timeToMinutes operatingStart;
          endMinutes = timeToMinutes operatingEnd;
          sortedSlots = js_sort (\<lambda>a b. js_sub (timeToMinutes (start a)) (timeToMinutes (start b)))
                     occupiedSlots
      in merge_loop startMinutes endMinutes [] sortedSlots)"

text \<open>
  The second loop (lines 79 to 90), on the state \<^verbatim>\<open>(freeSlots, currentStart)\<close>.
  \<^verbatim>\<open>
  for (const occupied of mergedOccupied) {
      const occStart = timeToMinutes(occupied.start);
      if (currentStart < occStart) {
          freeSlots.push({ start: minutesToTime(currentStart), end: occupied.start });
      }
      currentStart = Math.max(currentStart, timeToMinutes(occupied.end));
  }
  \<close>
\<close>

fun invert_loop :: "TimeSlot list \<Rightarrow> jsnum \<Rightarrow> TimeSlot list \<Rightarrow> TimeSlot list \<times> jsnum" where
  "invert_loop freeSlots currentStart [] = (freeSlots, currentStart)"
| "invert_loop freeSlots currentStart (occ # rest) =
     (let occStart = timeToMinutes (start occ)
      in invert_loop
           (if js_lt currentStart occStart
            then freeSlots @ [\<lparr>start = minutesToTime currentStart, end_time = start occ\<rparr>]
            else freeSlots)
           (js_max currentStart (timeToMinutes (end_time occ))) rest)"

text \<open>
  The free-slot deriver: lines 76 to 100 of \<^verbatim>\<open>findFreeSlots\<close>, from the merged list to
  the returned \<^verbatim>\<open>freeSlots\<close>.
  \<^verbatim>\<open>
  if (currentStart < endMinutes) {
      freeSlots.push({ start: minutesToTime(currentStart), end: operatingEnd });
  }
  return freeSlots;
  \<close>
\<close>

definition deriveFreeSlots :: "TimeSlot list \<Rightarrow> jsnum \<Rightarrow> string \<Rightarrow> TimeSlot list" where
  "deriveFreeSlots mergedOccupied startMinutes operatingEnd =
     (case invert_loop [] startMinutes mergedOccupied of
        (freeSlots, currentStart) \<Rightarrow>
          if js_lt currentStart (timeToMinutes operatingEnd)
          then freeSlots @ [\<lparr>start = minutesToTime currentStart, end_time = operatingEnd\<rparr>]
          else freeSlots)"

definition findFreeSlots :: "TimeSlot list \<Rightarrow> string \<Rightarrow> string \<Rightarrow> TimeSlot list" where
  "findFreeSlots occupiedSlots operatingStart operatingEnd =
     deriveFreeSlots (mergeOccupied occupiedSlots operatingStart operatingEnd)
       (timeToMinutes operatingStart) operatingEnd"


section \<open>Schedule aggregator\<close>

text \<open>
  A JavaScript \<^verbatim>\<open>Map\<close> keeps its keys in insertion order, and \<^verbatim>\<open>set\<close> on a present key
  keeps the key's position: an association list with \<open>map_of\<close> and \<open>AList.update\<close>.
  \<^verbatim>\<open>
  schedules.forEach(schedule => {
      if (!merged.has(schedule.room)) { merged.set(schedule.room, new Map()); }
      const roomMap = merged.get(schedule.room)!;
      if (!roomMap.has(schedule.day)) { roomMap.set(schedule.day, []); }
      roomMap.get(schedule.day)!.push(...schedule.occupied);
  });
  \<close>
  An absent room starts from the empty map and an absent day from the empty list. The
  day map with the longer list is stored back under the room; for a room already
  present this keeps its position, as the mutation in place does.
\<close>

type_synonym dayMap = "(string \<times> TimeSlot list) list"

definition add_schedule :: "(string \<times> dayMap) list \<Rightarrow> RoomSchedule \<Rightarrow> (string \<times> dayMap) list" where
  "add_schedule merged schedule =
     (let roomMap = (case map_of merged (room schedule) of None \<Rightarrow> [] | Some m \<Rightarrow> m);
          slots = (case map_of roomMap (day schedule) of None \<Rightarrow> [] | Some xs \<Rightarrow> xs)
      in AList.update (room schedule)
           (AList.update (day schedule) (slots @ occupied schedule) roomMap) merged)"

definition mergeRoomSchedules :: "RoomSchedule list \<Rightarrow> (string \<times> dayMap) list" where
  "mergeRoomSchedules schedules = foldl add_schedule [] schedules"


section \<open>Room query engine\<close>

text \<open>
  \<^verbatim>\<open>parseInt(s)\<close> without a radix: leading white space is skipped, a sign is read, a
  prefix \<^verbatim>\<open>0x\<close> selects base 16, and the longest run of digits is the value; no digit
  gives \<open>NaN\<close>.
\<close>

definition is_hex_digit :: "char \<Rightarrow> bool" where
  "is_hex_digit c =
     (is_digit c \<or> (65 \<le> (of_char c :: nat) \<and> (of_char c :: nat) \<le> 70)
        \<or> (97 \<le> (of_char c :: nat) \<and> (of_char c :: nat) \<le> 102))"

definition hex_digit_val :: "char \<Rightarrow> int" where
  "hex_digit_val c =
     (if is_digit c then digit_val c
      else if 97 \<le> (of_char c :: nat) then int (of_char c) - 87
      else int (of_char c) - 55)"

definition hex_val :: "string \<Rightarrow> int" where
  "hex_val s = foldl (\<lambda>acc c. acc * 16 + hex_digit_val c) 0 s"

definition js_parseInt :: "string \<Rightarrow> jsnum" where
  "js_parseInt s =
     (let s1 = dropWhile is_space s;
          negative = (take 1 s1 = ''-'');
          s2 = (if take 1 s1 = ''-'' \<or> take 1 s1 = ''+'' then drop 1 s1 else s1);
          hex = (take 2 s2 = ''0x'' \<or> take 2 s2 = ''0X'');
          z = (if hex then takeWhile is_hex_digit (drop 2 s2) else takeWhile is_digit s2);
          v = (if hex then hex_val z else decimal_val z)
      in if z = [] then NaN else Num (if negative then - v else v))"

text \<open>
  The loop over the free slots of one room (lines 140 to 161). The optional parameters
  are \<open>None\<close> when absent; \<^verbatim>\<open>if (targetTime)\<close> also skips the empty string, and
  \<^verbatim>\<open>minDuration &&\<close> skips \<open>0\<close> and \<open>NaN\<close>.
  \<^verbatim>\<open>
  for (const slot of freeSlots) {
      const start = timeToMinutes(slot.start);
      const end = timeToMinutes(slot.end);
      const duration = end - start;
      if (minDuration && duration < minDuration) continue;
      if (targetTime) {
          const target = timeToMinutes(targetTime);
          if (target < start || target >= end) continue;
      }
      freeRooms.push({ room, day, freeFrom: slot.start, freeTill: slot.end, duration });
  }
  \<close>
\<close>

definition too_short :: "jsnum option \<Rightarrow> jsnum \<Rightarrow> bool" where
  "too_short minDuration d =
     (case minDuration of None \<Rightarrow> False | Some m \<Rightarrow> js_truthy_num m \<and> js_lt d m)"

definition misses_target :: "string option \<Rightarrow> jsnum \<Rightarrow> jsnum \<Rightarrow> bool" where
  "misses_target targetTime s e =
     (case targetTime of
        None \<Rightarrow> False
      | Some t \<Rightarrow> t \<noteq> [] \<and> (js_lt (timeToMinutes t) s \<or> js_ge (timeToMinutes t) e))"

fun slot_loop ::
  "string \<Rightarrow> string \<Rightarrow> string option \<Rightarrow> jsnum option \<Rightarrow> FreeRoom list \<Rightarrow> TimeSlot list
     \<Rightarrow> FreeRoom list" where
  "slot_loop rm dy targetTime minDuration freeRooms [] = freeRooms"
| "slot_loop rm dy targetTime minDuration freeRooms (slot # rest) =
     (let s = timeToMinutes (start slot);
          e = timeToMinutes (end_time slot);
          d = js_sub e s
      in if too_short minDuration d then slot_loop rm dy targetTime minDuration freeRooms rest
         else if misses_target targetTime s e
           then slot_loop rm dy targetTime minDuration freeRooms rest
         else slot_loop rm dy targetTime minDuration
                (freeRooms @ [\<lparr>fr_room = rm, fr_day = dy, freeFrom = start slot,
                                freeTill = end_time slot, duration = d\<rparr>]) rest)"

text \<open>
  \<^verbatim>\<open>
  return freeRooms.sort((a, b) => {
      if (b.duration !== a.duration) return b.duration - a.duration;
      return parseInt(a.room) - parseInt(b.room);
  });
  \<close>
\<close>

definition compare_rooms :: "FreeRoom \<Rightarrow> FreeRoom \<Rightarrow> jsnum" where
  "compare_rooms a b =
     (if js_strict_neq (duration b) (duration a) then js_sub (duration b) (duration a)
      else js_sub (js_parseInt (fr_room a)) (js_parseInt (fr_room b)))"

text \<open>
  \<^verbatim>\<open>findFreeRooms\<close> walks the rooms of the aggregated map, that is the rooms of the
  supplied schedules in the order of their first record, and calls \<^verbatim>\<open>findFreeSlots\<close>
  with the default window \<^verbatim>\<open>OPERATING_HOURS\<close>.
\<close>

definition room_step ::
  "string \<Rightarrow> string option \<Rightarrow> jsnum option \<Rightarrow> FreeRoom list \<Rightarrow> string \<times> dayMap \<Rightarrow> FreeRoom list" where
  "room_step dy targetTime minDuration freeRooms entry =
     (case entry of (rm, dayMap) \<Rightarrow>
        (let occupiedSlots = (case map_of dayMap dy of None \<Rightarrow> [] | Some xs \<Rightarrow> xs);
             freeSlots = findFreeSlots occupiedSlots
                           (start OPERATING_HOURS) (end_time OPERATING_HOURS)
         in slot_loop rm dy targetTime minDuration freeRooms freeSlots))"

definition findFreeRooms ::
  "RoomSchedule list \<Rightarrow> string \<Rightarrow> string option \<Rightarrow> jsnum option \<Rightarrow> FreeRoom list" where
  "findFreeRooms schedules dy targetTime minDuration =
     (let merged = mergeRoomSchedules schedules;
          freeRooms = foldl (room_step dy targetTime minDuration) [] merged
      in js_sort compare_rooms freeRooms)"


section \<open>The caller's completion of the schedules\<close>

text \<open>
  \<^verbatim>\<open>getCompleteSchedules\<close> of \<^verbatim>\<open>src/app/api/rooms/route.ts\<close> groups the records under the
  key \<^verbatim>\<open>`${room}-${day}`\<close> and adds an empty record for each room of \<^verbatim>\<open>ALL_ROOMS\<close> and
  day of \<^verbatim>\<open>DAYS\<close> that has none.
\<close>

definition ALL_ROOMS :: "string list" where
  "ALL_ROOMS = [''401'', ''402'', ''403'', ''404'', ''405'',
                ''501'', ''502'', ''503'', ''504'', ''505'']"

definition DAYS :: "string list" where
  "DAYS = [''Mon'', ''Tue'', ''Wed'', ''Thur'']"

definition schedule_key :: "string \<Rightarrow> string \<Rightarrow> string" where
  "schedule_key rm dy = rm @ ''-'' @ dy"

definition add_existing ::
  "(string \<times> RoomSchedule) list \<Rightarrow> RoomSchedule \<Rightarrow> (string \<times> RoomSchedule) list" where
  "add_existing scheduleMap schedule =
     (let key = schedule_key (room schedule) (day schedule)
      in case map_of scheduleMap key of
           Some existing \<Rightarrow>
             AList.update key (existing\<lparr>occupied := occupied existing @ occupied schedule\<rparr>)
               scheduleMap
         | None \<Rightarrow> AList.update key schedule scheduleMap)"

definition ensure_entry ::
  "string \<Rightarrow> (string \<times> RoomSchedule) list \<Rightarrow> string \<Rightarrow> (string \<times> RoomSchedule) list" where
  "ensure_entry rm scheduleMap dy =
     (let key = schedule_key rm dy
      in if map_of scheduleMap key = None
         then AList.update key \<lparr>room = rm, day = dy, occupied = []\<rparr> scheduleMap
         else scheduleMap)"

definition getCompleteSchedules :: "RoomSchedule list \<Rightarrow> RoomSchedule list" where
  "getCompleteSchedules schedules =
     (let scheduleMap = foldl add_existing [] schedules;
          completed = foldl (\<lambda>m rm. foldl (ensure_entry rm) m DAYS) scheduleMap ALL_ROOMS
      in map snd completed)"


section \<open>Well-formed data and intervals of minutes\<close>

text \<open>
  A time string is usable when it converts to a number of minutes that is not negative.
  The lemmas on the engine need no more than that of their input, and show it of the
  strings the engine writes.
\<close>

definition validTime :: "string \<Rightarrow> bool" where
  "validTime t = (case timeToMinutes t of Num n \<Rightarrow> 0 \<le> n | NaN \<Rightarrow> False)"

definition validSlot :: "TimeSlot \<Rightarrow> bool" where
  "validSlot slot = (validTime (start slot) \<and> validTime (end_time slot))"

definition validSchedules :: "RoomSchedule list \<Rightarrow> bool" where
  "validSchedules schedules = (\<forall>sch \<in> set schedules. \<forall>slot \<in> set (occupied sch). validSlot slot)"

text \<open>
  The \<^verbatim>\<open>ClockTime\<close> of the data model: two digits, a colon, two digits, on a 24-hour
  clock. The theorems are stated for slots, windows and target times that are clock times;
  the numbers of the engine then stay below 1440 and the integer model of the numbers is
  exact.
\<close>

definition isClockTime :: "string \<Rightarrow> bool" where
  "isClockTime t =
     (case t of
        [h1, h2, c, m1, m2] \<Rightarrow>
          is_digit h1 \<and> is_digit h2 \<and> c = CHR '':'' \<and> is_digit m1 \<and> is_digit m2
            \<and> decimal_val [h1, h2] \<le> 23 \<and> decimal_val [m1, m2] \<le> 59
      | _ \<Rightarrow> False)"

definition clockSlot :: "TimeSlot \<Rightarrow> bool" where
  "clockSlot slot = (isClockTime (start slot) \<and> isClockTime (end_time slot))"

definition clockSchedules :: "RoomSchedule list \<Rightarrow> bool" where
  "clockSchedules schedules = list_all (\<lambda>sch. list_all clockSlot (occupied sch)) schedules"

text \<open>A slot converted to minutes, and the slot the merger writes for an interval.\<close>

type_synonym interval = "int \<times> int"

definition slot_minutes :: "TimeSlot \<Rightarrow> interval" where
  "slot_minutes slot = (the_Num (timeToMinutes (start slot)), the_Num (timeToMinutes (end_time slot)))"

definition slot_of :: "interval \<Rightarrow> TimeSlot" where
  "slot_of x = \<lparr>start = minutesToTime (Num (fst x)), end_time = minutesToTime (Num (snd x))\<rparr>"

definition slot_is :: "TimeSlot \<Rightarrow> interval \<Rightarrow> bool" where
  "slot_is slot x =
     (timeToMinutes (start slot) = Num (fst x) \<and> timeToMinutes (end_time slot) = Num (snd x))"

text \<open>
  The two loops on intervals of minutes. On well-formed data the loops on strings compute
  these (lemmas \<open>merge_loop_refines\<close> and \<open>deriveFreeSlots_refines\<close>); the accumulator of the
  first is kept in reverse.
\<close>

definition clip :: "int \<Rightarrow> int \<Rightarrow> interval \<Rightarrow> interval" where
  "clip ws we x = (max (fst x) ws, min (snd x) we)"

fun merge_scan :: "interval list \<Rightarrow> interval list \<Rightarrow> interval list" where
  "merge_scan acc [] = rev acc"
| "merge_scan acc ((s, e) # xs) =
     (if s \<ge> e then merge_scan acc xs
      else (case acc of
              [] \<Rightarrow> merge_scan [(s, e)] xs
            | (ls, le) # acc' \<Rightarrow>
                if s \<le> le then merge_scan ((ls, max le e) # acc') xs
                else merge_scan ((s, e) # (ls, le) # acc') xs))"

fun free_scan :: "int \<Rightarrow> int \<Rightarrow> interval list \<Rightarrow> interval list" where
  "free_scan cur we [] = (if cur < we then [(cur, we)] else [])"
| "free_scan cur we ((s, e) # m) =
     (if cur < s then (cur, s) # free_scan (max cur e) we m else free_scan (max cur e) we m)"

text \<open>The minutes covered by a list of intervals, each taken from its start up to, not
  including, its end.\<close>

definition cover :: "interval list \<Rightarrow> int set" where
  "cover xs = (\<Union>(s, e) \<in> set xs. {s..<e})"

text \<open>Sorted, each interval non-empty, and a gap between any interval and the next:
  neither overlapping nor touching.\<close>

definition separated :: "interval list \<Rightarrow> bool" where
  "separated xs = ((\<forall>(s, e) \<in> set xs. s < e) \<and> sorted_wrt (\<lambda>a b. snd a < fst b) xs)"

definition in_window :: "int \<Rightarrow> int \<Rightarrow> interval list \<Rightarrow> bool" where
  "in_window ws we xs = (\<forall>(s, e) \<in> set xs. ws \<le> s \<and> e \<le> we)"

definition head_before :: "interval list \<Rightarrow> interval list \<Rightarrow> bool" where
  "head_before acc xs =
     (case acc of [] \<Rightarrow> True | (ls, le) # _ \<Rightarrow> \<forall>(s, e) \<in> set xs. ls \<le> s)"

text \<open>A list of intervals tiles \<open>[lo, hi]\<close>: the first starts at \<open>lo\<close>, each is non-empty and
  ends where the next starts, and the last ends at \<open>hi\<close>.\<close>

fun tiles :: "int \<Rightarrow> int \<Rightarrow> interval list \<Rightarrow> bool" where
  "tiles lo hi [] = (lo = hi)"
| "tiles lo hi ((s, e) # zs) = (s = lo \<and> s < e \<and> tiles e hi zs)"

text \<open>The merger on minutes: sort by start, clip to the window, scan.\<close>

definition minutesOf :: "string \<Rightarrow> int" where
  "minutesOf t = the_Num (timeToMinutes t)"

definition merged_minutes :: "int \<Rightarrow> int \<Rightarrow> TimeSlot list \<Rightarrow> interval list" where
  "merged_minutes ws we occ =
     merge_scan [] (map (\<lambda>sl. clip ws we (slot_minutes sl))
                      (sort_key (\<lambda>sl. fst (slot_minutes sl)) occ))"

text \<open>The minutes of the window that the input slots occupy.\<close>

definition occupied_minutes :: "int \<Rightarrow> int \<Rightarrow> TimeSlot list \<Rightarrow> int set" where
  "occupied_minutes ws we occ =
     (\<Union>sl \<in> set occ. {max (fst (slot_minutes sl)) ws..<min (snd (slot_minutes sl)) we})"

text \<open>The result pushed for a free slot, and the test that lets a slot through.\<close>

definition result_of :: "string \<Rightarrow> string \<Rightarrow> TimeSlot \<Rightarrow> FreeRoom" where
  "result_of rm dy slot =
     \<lparr>fr_room = rm, fr_day = dy, freeFrom = start slot, freeTill = end_time slot,
      duration = js_sub (timeToMinutes (end_time slot)) (timeToMinutes (start slot))\<rparr>"

definition keeps :: "string option \<Rightarrow> jsnum option \<Rightarrow> TimeSlot \<Rightarrow> bool" where
  "keeps targetTime minDuration slot =
     (\<not> too_short minDuration (js_sub (timeToMinutes (end_time slot)) (timeToMinutes (start slot)))
      \<and> \<not> misses_target targetTime (timeToMinutes (start slot)) (timeToMinutes (end_time slot)))"


text \<open>What one room of the aggregated map contributes to the result, the slots the
  aggregated map holds for a room and a day, and the order the final sort establishes
  when durations and room numbers are numbers.\<close>

definition room_results ::
  "string \<Rightarrow> string option \<Rightarrow> jsnum option \<Rightarrow> string \<times> dayMap \<Rightarrow> FreeRoom list" where
  "room_results dy targetTime minDuration entry =
     map (result_of (fst entry) dy)
       (filter (keeps targetTime minDuration)
          (findFreeSlots (case map_of (snd entry) dy of None \<Rightarrow> [] | Some xs \<Rightarrow> xs)
             (start OPERATING_HOURS) (end_time OPERATING_HOURS)))"

definition slots_for :: "(string \<times> dayMap) list \<Rightarrow> string \<Rightarrow> string \<Rightarrow> TimeSlot list" where
  "slots_for merged rm dy =
     (case map_of merged rm of
        None \<Rightarrow> []
      | Some dm \<Rightarrow> (case map_of dm dy of None \<Rightarrow> [] | Some xs \<Rightarrow> xs))"

definition room_key :: "FreeRoom \<Rightarrow> int \<times> int" where
  "room_key r = (- the_Num (duration r), the_Num (js_parseInt (fr_room r)))"

text \<open>Room identifiers that \<^verbatim>\<open>parseInt\<close> reads as a number, and short enough for that
  number to be exact.\<close>

definition numericRooms :: "RoomSchedule list \<Rightarrow> bool" where
  "numericRooms schedules =
     list_all (\<lambda>sch. length (room sch) \<le> 15 \<and> js_parseInt (room sch) \<noteq> NaN) schedules"

text \<open>The order of the result: durations do not increase, and among equal durations the
  room numbers do not decrease.\<close>

definition result_order :: "FreeRoom \<Rightarrow> FreeRoom \<Rightarrow> bool" where
  "result_order a b =
     (js_ge (duration a) (duration b)
      \<and> (duration a = duration b \<longrightarrow> js_le (js_parseInt (fr_room a)) (js_parseInt (fr_room b))))"


text \<open>A room has no occupied slot on a day in the supplied records; the result for a room
  that is free for the whole operating window.\<close>

definition noOccupancy :: "RoomSchedule list \<Rightarrow> string \<Rightarrow> string \<Rightarrow> bool" where
  "noOccupancy schedules rm dy =
     list_all (\<lambda>s. room s = rm \<and> day s = dy \<longrightarrow> occupied s = []) schedules"

definition freeAllDay :: "string \<Rightarrow> string \<Rightarrow> FreeRoom" where
  "freeAllDay rm dy =
     \<lparr>fr_room = rm, fr_day = dy, freeFrom = ''09:00'', freeTill = ''19:30'', duration = Num 630\<rparr>"

text \<open>What the caller's map holds while it is built: each record sits under its own key,
  and its slots come from supplied records of that key.\<close>

definition keyed :: "RoomSchedule list \<Rightarrow> (string \<times> RoomSchedule) list \<Rightarrow> bool" where
  "keyed schedules scheduleMap =
     (\<forall>(k, g) \<in> set scheduleMap.
        k = schedule_key (room g) (day g)
        \<and> (\<forall>sl \<in> set (occupied g).
              \<exists>s \<in> set schedules. schedule_key (room s) (day s) = k \<and> sl \<in> set (occupied s)))"


section \<open>Parsing a clock time\<close>

lemma split_on_notin: "c \<notin> set s \<Longrightarrow> split_on c s = [s]"
  by (induction s) auto

lemma split_on_append: "c \<notin> set h \<Longrightarrow> split_on c (h @ c # m) = h # split_on c m"
  by (induction h) auto

lemma digit_not_space: "is_digit c \<Longrightarrow> \<not> is_space c"
  by (auto simp: is_digit_def is_space_def)

lemma digit_not_sign:
  "is_digit c \<Longrightarrow> c \<noteq> CHR ''-'' \<and> c \<noteq> CHR ''+'' \<and> c \<noteq> CHR '':''"
  by (auto simp: is_digit_def)

lemma trim_digits: "list_all is_digit s \<Longrightarrow> trim s = s"
proof (cases s rule: rev_cases)
  case Nil
  then show ?thesis by (simp add: trim_def)
next
  case (snoc ys y)
  assume d: "list_all is_digit s"
  have a: "dropWhile is_space s = s"
    using d by (cases s) (auto simp: digit_not_space)
  have "dropWhile is_space (rev s) = rev s"
    using d snoc by (simp add: digit_not_space)
  with a show ?thesis by (simp add: trim_def)
qed

lemma js_Number_digits:
  "s \<noteq> [] \<Longrightarrow> list_all is_digit s \<Longrightarrow> js_Number s = Num (decimal_val s)"
  by (cases s) (auto simp: js_Number_def trim_digits digit_not_sign)

lemma digits_no_colon: "list_all is_digit s \<Longrightarrow> CHR '':'' \<notin> set s"
  using digit_not_sign by (auto simp: list_all_iff)

lemma timeToMinutes_no_colon: "CHR '':'' \<notin> set s \<Longrightarrow> timeToMinutes s = NaN"
  by (simp add: timeToMinutes_def split_on_notin)

lemma timeToMinutes_digits:
  assumes "h \<noteq> []" "list_all is_digit h" "m \<noteq> []" "list_all is_digit m"
  shows "timeToMinutes (h @ '':'' @ m) = Num (decimal_val h * 60 + decimal_val m)"
  using assms
  by (simp add: timeToMinutes_def split_on_append split_on_notin digits_no_colon
      js_Number_digits)

section \<open>Writing and reading back a number of minutes\<close>

declare digits_of.simps [simp del]

lemma decimal_val_snoc: "decimal_val (s @ [c]) = decimal_val s * 10 + digit_val c"
  by (simp add: decimal_val_def)

lemma digit_char: "d < 10 \<Longrightarrow> is_digit (char_of (48 + d)) \<and> digit_val (char_of (48 + d)) = int d"
  by (simp add: is_digit_def digit_val_def)

lemma digits_of_props:
  "digits_of n \<noteq> [] \<and> list_all is_digit (digits_of n) \<and> decimal_val (digits_of n) = int n"
proof (induction n rule: digits_of.induct)
  case (1 n)
  show ?case
  proof (cases "n < 10")
    case True
    then show ?thesis
      using digit_char[of n] by (simp add: digits_of.simps[of n] decimal_val_def)
  next
    case False
    have "n mod 10 < 10" by simp
    from digit_char[OF this] 1[OF False] False show ?thesis
      by (simp add: digits_of.simps[of n] decimal_val_snoc zdiv_int zmod_int)
  qed
qed

lemma decimal_val_zeros: "decimal_val (replicate k (CHR ''0'') @ s) = decimal_val s"
proof -
  have "foldl (\<lambda>acc c. acc * 10 + digit_val c) 0 (replicate k (CHR ''0'')) = 0"
    by (induction k) (simp_all add: digit_val_def)
  then show ?thesis by (simp add: decimal_val_def)
qed

lemma padStart2_props:
  "s \<noteq> [] \<Longrightarrow> list_all is_digit s \<Longrightarrow>
   padStart2 s \<noteq> [] \<and> list_all is_digit (padStart2 s) \<and> decimal_val (padStart2 s) = decimal_val s"
proof -
  have z: "is_digit (CHR ''0'')" by (simp add: is_digit_def)
  assume "s \<noteq> []" "list_all is_digit s"
  then show ?thesis
    by (auto simp: padStart2_def decimal_val_zeros list_all_iff z)
qed

lemma roundtrip:
  assumes "0 \<le> n"
  shows "timeToMinutes (minutesToTime (Num n)) = Num n"
proof -
  let ?h = "padStart2 (digits_of (nat (n div 60)))"
  let ?m = "padStart2 (digits_of (nat (n mod 60)))"
  have n60: "0 \<le> n div 60" "0 \<le> n mod 60" using assms by (simp_all add: pos_imp_zdiv_nonneg_iff)
  have nm: "\<not> n mod 60 < 0" "\<not> n div 60 < 0" "\<not> n < 0"
    using n60 assms by linarith+
  have m: "minutesToTime (Num n) = ?h @ '':'' @ ?m"
    using nm by (simp add: js_toString_def js_rem_def)
  have h: "?h \<noteq> [] \<and> list_all is_digit ?h \<and> decimal_val ?h = n div 60"
    using padStart2_props[of "digits_of (nat (n div 60))"] digits_of_props[of "nat (n div 60)"] n60
    by simp
  have mm: "?m \<noteq> [] \<and> list_all is_digit ?m \<and> decimal_val ?m = n mod 60"
    using padStart2_props[of "digits_of (nat (n mod 60))"] digits_of_props[of "nat (n mod 60)"] n60
    by simp
  show ?thesis
    unfolding m using timeToMinutes_digits[of ?h ?m] h mm by simp
qed

declare minutesToTime.simps [simp del]

lemma validTime_iff: "validTime t \<longleftrightarrow> (\<exists>n\<ge>0. timeToMinutes t = Num n)"
  by (auto simp: validTime_def split: jsnum.splits)

lemma isClockTime_valid: "isClockTime t \<Longrightarrow> validTime t"
proof -
  assume a: "isClockTime t"
  then obtain h1 h2 m1 m2 where t: "t = [h1, h2] @ '':'' @ [m1, m2]"
    and d: "is_digit h1" "is_digit h2" "is_digit m1" "is_digit m2"
    by (auto simp: isClockTime_def split: list.splits)
  have "timeToMinutes t = Num (decimal_val [h1, h2] * 60 + decimal_val [m1, m2])"
    unfolding t using d by (intro timeToMinutes_digits) simp_all
  moreover have "0 \<le> decimal_val [h1, h2]" "0 \<le> decimal_val [m1, m2]"
    using d by (simp_all add: decimal_val_def digit_val_def is_digit_def)
  ultimately show ?thesis by (simp add: validTime_iff)
qed


section \<open>Merging intervals of minutes\<close>

lemma cover_Nil [simp]: "cover [] = {}"
  by (simp add: cover_def)
lemma cover_Cons [simp]: "cover ((s, e) # xs) = {s..<e} \<union> cover xs"
  by (simp add: cover_def)
lemma cover_append [simp]: "cover (xs @ ys) = cover xs \<union> cover ys"
  by (auto simp: cover_def)
lemma cover_rev [simp]: "cover (rev xs) = cover xs"
  by (simp add: cover_def)

lemma separated_Nil [simp]: "separated []"
  by (simp add: separated_def)
lemma separated_Cons:
  "separated ((s, e) # xs) \<longleftrightarrow> s < e \<and> (\<forall>(a, b) \<in> set xs. e < a) \<and> separated xs"
  by (auto simp: separated_def)

lemma separated_snoc:
  "separated (xs @ [(s, e)]) \<longleftrightarrow> s < e \<and> (\<forall>(a, b) \<in> set xs. b < s) \<and> separated xs"
  by (auto simp: separated_def sorted_wrt_append)

lemma merge_scan_separated:
  "separated (rev acc) \<Longrightarrow> separated (merge_scan acc xs)"
proof (induction xs arbitrary: acc)
  case Nil
  then show ?case by simp
next
  case (Cons x xs)
  obtain s e where x: "x = (s, e)" by (cases x)
  show ?case
  proof (cases "s \<ge> e")
    case True
    then show ?thesis using Cons x by simp
  next
    case new: False
    show ?thesis
    proof (cases acc)
      case Nil
      have "separated (rev [(s, e)])"
        using new by (simp add: separated_def)
      from Cons.IH[OF this] show ?thesis using Nil x new by simp
    next
      case (Cons a acc')
      obtain ls le where a: "a = (ls, le)" by (cases a)
      have sep: "separated (rev acc' @ [(ls, le)])" using Cons.prems Cons a by simp
      show ?thesis
      proof (cases "s \<le> le")
        case True
        have "separated (rev ((ls, max le e) # acc'))"
          using sep by (auto simp: separated_snoc)
        from Cons.IH[OF this] show ?thesis using Cons a x new True by simp
      next
        case False
        have "\<forall>(a, b) \<in> set (rev acc' @ [(ls, le)]). b < s"
          using sep False by (fastforce simp: separated_snoc)
        with sep new have "separated ((rev acc' @ [(ls, le)]) @ [(s, e)])"
          unfolding separated_snoc [of "rev acc' @ [(ls, le)]" s e] by simp
        then have "separated (rev ((s, e) # (ls, le) # acc'))"
          by simp
        from Cons.IH[OF this] show ?thesis using Cons a x new False by simp
      qed
    qed
  qed
qed

lemma merge_scan_in_window:
  "in_window ws we acc \<Longrightarrow> in_window ws we xs \<Longrightarrow> in_window ws we (merge_scan acc xs)"
proof (induction xs arbitrary: acc)
  case Nil
  then show ?case by (simp add: in_window_def)
next
  case (Cons x xs)
  obtain s e where x: "x = (s, e)" by (cases x)
  have wx: "ws \<le> s" "e \<le> we" "in_window ws we xs"
    using Cons.prems(2) x by (auto simp: in_window_def)
  show ?case
  proof (cases "s \<ge> e")
    case True
    then show ?thesis using Cons.IH[OF Cons.prems(1) wx(3)] x by simp
  next
    case new: False
    show ?thesis
    proof (cases acc)
      case Nil
      have "in_window ws we [(s, e)]"
        using wx by (simp add: in_window_def)
      from Cons.IH[OF this wx(3)] show ?thesis using Nil x new by simp
    next
      case (Cons a acc')
      obtain ls le where a: "a = (ls, le)" by (cases a)
      have w: "in_window ws we ((ls, le) # acc')" using Cons.prems Cons a by simp
      show ?thesis
      proof (cases "s \<le> le")
        case True
        have "in_window ws we ((ls, max le e) # acc')"
          using w wx by (auto simp: in_window_def)
        from Cons.IH[OF this wx(3)] show ?thesis using Cons a x new True by simp
      next
        case False
        have "in_window ws we ((s, e) # (ls, le) # acc')"
          using w wx by (auto simp: in_window_def)
        from Cons.IH[OF this wx(3)] show ?thesis using Cons a x new False by simp
      qed
    qed
  qed
qed

lemma merge_scan_cover:
  "sorted (map fst xs) \<Longrightarrow> head_before acc xs \<Longrightarrow>
   cover (merge_scan acc xs) = cover acc \<union> cover xs"
proof (induction xs arbitrary: acc)
  case Nil
  then show ?case by simp
next
  case (Cons x xs)
  obtain s e where x: "x = (s, e)" by (cases x)
  have sorted_xs: "sorted (map fst xs)" using Cons.prems(1) by simp
  have le_s: "\<forall>(s2, e2) \<in> set xs. s \<le> s2" using Cons.prems(1) x by auto
  show ?case
  proof (cases "s \<ge> e")
    case True
    have hb: "head_before acc xs"
      using Cons.prems(2) by (auto simp: head_before_def split: list.splits)
    have "{s..<e} = {}" using True by simp
    with Cons.IH[OF sorted_xs hb] show ?thesis using x True by simp
  next
    case new: False
    show ?thesis
    proof (cases acc)
      case Nil
      have "head_before [(s, e)] xs"
        using le_s by (simp add: head_before_def)
      from Cons.IH[OF sorted_xs this] show ?thesis using Nil x new by auto
    next
      case (Cons a acc')
      obtain ls le where a: "a = (ls, le)" by (cases a)
      have ls: "ls \<le> s"
        using Cons.prems(2) Cons a x by (simp add: head_before_def)
      show ?thesis
      proof (cases "s \<le> le")
        case True
        have hb: "head_before ((ls, max le e) # acc') xs"
          using Cons.prems(2) Cons a by (auto simp: head_before_def)
        have "{ls..<max le e} = {ls..<le} \<union> {s..<e}"
          using ls True new by auto
        with Cons.IH[OF sorted_xs hb] show ?thesis using Cons a x new True by auto
      next
        case False
        have hb: "head_before ((s, e) # (ls, le) # acc') xs"
          using le_s by (simp add: head_before_def)
        from Cons.IH[OF sorted_xs hb] show ?thesis using Cons a x new False by auto
      qed
    qed
  qed
qed

lemma separated_cover_empty: "separated xs \<Longrightarrow> cover xs = {} \<Longrightarrow> xs = []"
proof (cases xs)
  case Nil
  then show ?thesis by simp
next
  case (Cons a list)
  assume "separated xs" "cover xs = {}"
  then show ?thesis using Cons by (cases a) (auto simp: separated_Cons)
qed

lemma separated_unique:
  "separated xs \<Longrightarrow> separated ys \<Longrightarrow> cover xs = cover ys \<Longrightarrow> xs = ys"
proof (induction xs arbitrary: ys)
  case Nil
  then show ?case using separated_cover_empty[of ys] by simp
next
  case (Cons x xs)
  obtain s e where x: "x = (s, e)" by (cases x)
  from Cons.prems have "ys \<noteq> []"
    using separated_cover_empty[of "x # xs"] by auto
  then obtain s' e' ys' where ys: "ys = (s', e') # ys'" by (cases ys) auto
  have sx: "s < e" "\<forall>(a, b) \<in> set xs. e < a" "separated xs"
    using Cons.prems(1) x by (auto simp: separated_Cons)
  have sy: "s' < e'" "\<forall>(a, b) \<in> set ys'. e' < a" "separated ys'"
    using Cons.prems(2) ys by (auto simp: separated_Cons)
  have bx: "\<forall>t \<in> cover xs. e < t" using sx(2) by (fastforce simp: cover_def)
  have by': "\<forall>t \<in> cover ys'. e' < t" using sy(2) by (fastforce simp: cover_def)
  have eq: "{s..<e} \<union> cover xs = {s'..<e'} \<union> cover ys'"
    using Cons.prems(3) x ys by simp
  have "s \<in> {s'..<e'} \<union> cover ys'" using eq sx(1) by auto
  then have 1: "s' \<le> s" using by' sy(1) by auto
  have "s' \<in> {s..<e} \<union> cover xs" using eq sy(1) by auto
  then have 2: "s \<le> s'" using bx sx(1) by auto
  have s_eq: "s = s'" using 1 2 by simp
  have 3: "\<not> e < e'"
  proof
    assume "e < e'"
    then have "e \<in> {s'..<e'} \<union> cover ys'" using s_eq sx(1) by auto
    then have "e \<in> {s..<e} \<union> cover xs" using eq by simp
    then show False using bx by auto
  qed
  have 4: "\<not> e' < e"
  proof
    assume "e' < e"
    then have "e' \<in> {s..<e} \<union> cover xs" using s_eq sy(1) by auto
    then have "e' \<in> {s'..<e'} \<union> cover ys'" using eq by simp
    then show False using by' by auto
  qed
  have e_eq: "e = e'" using 3 4 by simp
  have "cover xs = cover ys'"
  proof -
    have "cover xs = ({s..<e} \<union> cover xs) - {s..<e}" using bx by auto
    also have "\<dots> = ({s'..<e'} \<union> cover ys') - {s'..<e'}" using eq s_eq e_eq by simp
    also have "\<dots> = cover ys'" using by' by auto
    finally show ?thesis .
  qed
  from Cons.IH[OF sx(3) sy(3) this] show ?case using x ys s_eq e_eq by simp
qed


section \<open>The loops on strings compute the scans on minutes\<close>

lemma insort_cmp_key:
  fixes k :: "'a \<Rightarrow> 'b::linorder"
  assumes "\<forall>y \<in> set ys. js_gt (cmp x y) (Num 0) \<longleftrightarrow> k y < k x"
  shows "insort_cmp cmp x ys = insort_key k x ys"
  using assms by (induction ys) (auto simp: not_le)

lemma js_sort_key:
  fixes k :: "'a \<Rightarrow> 'b::linorder"
  assumes "\<forall>x \<in> set xs. \<forall>y \<in> set xs. js_gt (cmp x y) (Num 0) \<longleftrightarrow> k y < k x"
  shows "js_sort cmp xs = sort_key k xs"
  using assms
proof (induction xs)
  case Nil
  then show ?case by (simp add: js_sort_def)
next
  case (Cons x xs)
  have "js_sort cmp xs = sort_key k xs" using Cons by simp
  moreover have "insort_cmp cmp x (sort_key k xs) = insort_key k x (sort_key k xs)"
    using Cons.prems by (intro insort_cmp_key) simp
  ultimately show ?case by (simp add: js_sort_def)
qed

lemma mset_insort_cmp: "mset (insort_cmp cmp x ys) = add_mset x (mset ys)"
  by (induction ys) auto

lemma mset_js_sort: "mset (js_sort cmp xs) = mset xs"
  by (induction xs) (auto simp: js_sort_def mset_insort_cmp)

lemma set_js_sort: "set (js_sort cmp xs) = set xs"
  using mset_js_sort[of cmp xs] by (metis set_mset_mset)

lemma validSlot_is: "validSlot sl \<Longrightarrow> slot_is sl (slot_minutes sl) \<and> 0 \<le> fst (slot_minutes sl) \<and> 0 \<le> snd (slot_minutes sl)"
  by (auto simp: validSlot_def validTime_iff slot_is_def slot_minutes_def)

lemma slot_of_is: "0 \<le> fst x \<Longrightarrow> 0 \<le> snd x \<Longrightarrow> slot_is (slot_of x) x"
  by (simp add: slot_is_def slot_of_def roundtrip)

lemma slot_is_minutes: "slot_is sl x \<Longrightarrow> slot_minutes sl = x"
  by (cases x) (simp add: slot_is_def slot_minutes_def)

lemma merge_loop_refines:
  assumes "0 \<le> ws" "0 \<le> we"
  shows "\<forall>sl \<in> set slots. validSlot sl \<Longrightarrow> \<forall>x \<in> set acc. 0 \<le> fst x \<and> 0 \<le> snd x \<Longrightarrow>
    merge_loop (Num ws) (Num we) (map slot_of (rev acc)) slots
      = map slot_of (merge_scan acc (map (\<lambda>sl. clip ws we (slot_minutes sl)) slots))"
proof (induction slots arbitrary: acc)
  case Nil
  then show ?case by simp
next
  case (Cons slot slots)
  obtain a b where ab: "slot_minutes slot = (a, b)" by (cases "slot_minutes slot")
  have v: "timeToMinutes (start slot) = Num a" "timeToMinutes (end_time slot) = Num b"
    "0 \<le> a" "0 \<le> b"
    using validSlot_is[of slot] Cons.prems(1) ab by (simp_all add: slot_is_def)
  define s where "s = max a ws"
  define e where "e = min b we"
  have se: "0 \<le> s" "0 \<le> e" using v assms by (simp_all add: s_def e_def)
  have cl: "clip ws we (slot_minutes slot) = (s, e)" by (simp add: clip_def ab s_def e_def)
  have st: "js_max (timeToMinutes (start slot)) (Num ws) = Num s"
    "js_min (timeToMinutes (end_time slot)) (Num we) = Num e"
    by (simp_all add: v s_def e_def)
  have rest: "\<forall>sl \<in> set slots. validSlot sl" using Cons.prems(1) by simp
  show ?case
  proof (cases "s \<ge> e")
    case True
    then show ?thesis using Cons.IH[OF rest Cons.prems(2)] by (simp add: st cl)
  next
    case new: False
    show ?thesis
    proof (cases acc)
      case Nil
      have "\<forall>x \<in> set [(s, e)]. 0 \<le> fst x \<and> 0 \<le> snd x" using se by simp
      from Cons.IH[OF rest this] show ?thesis using Nil new
        by (simp add: st cl slot_of_def)
    next
      case (Cons p acc')
      obtain ls le where p: "p = (ls, le)" by (cases p)
      have pl: "0 \<le> ls" "0 \<le> le" "\<forall>x \<in> set acc'. 0 \<le> fst x \<and> 0 \<le> snd x"
        using Cons.prems(2) Cons p by auto
      have lastEnd: "timeToMinutes (end_time (slot_of (ls, le))) = Num le"
        using pl by (simp add: slot_of_def roundtrip)
      show ?thesis
      proof (cases "s \<le> le")
        case True
        have "\<forall>x \<in> set ((ls, max le e) # acc'). 0 \<le> fst x \<and> 0 \<le> snd x"
          using pl se by auto
        from Cons.IH[OF rest this] show ?thesis using Cons p new True
          by (simp add: st cl lastEnd Let_def) (simp add: slot_of_def)
      next
        case False
        have "\<forall>x \<in> set ((s, e) # (ls, le) # acc'). 0 \<le> fst x \<and> 0 \<le> snd x"
          using pl se by auto
        from Cons.IH[OF rest this] show ?thesis using Cons p new False
          by (simp add: st cl lastEnd Let_def) (simp add: slot_of_def)
      qed
    qed
  qed
qed

lemma invert_loop_append:
  "invert_loop fs cur m = (fs @ fst (invert_loop [] cur m), snd (invert_loop [] cur m))"
proof (induction m arbitrary: fs cur)
  case Nil
  then show ?case by simp
next
  case (Cons occ m)
  show ?case
    using Cons[of "fs @ [\<lparr>start = minutesToTime cur, end_time = start occ\<rparr>]"]
      Cons[of "[\<lparr>start = minutesToTime cur, end_time = start occ\<rparr>]"] Cons[of fs]
    by (simp add: Let_def)
qed

lemma deriveFreeSlots_Nil:
  "deriveFreeSlots [] c we_s =
     (if js_lt c (timeToMinutes we_s) then [\<lparr>start = minutesToTime c, end_time = we_s\<rparr>] else [])"
  by (simp add: deriveFreeSlots_def)

lemma deriveFreeSlots_Cons:
  "deriveFreeSlots (occ # rest) c we_s =
     (if js_lt c (timeToMinutes (start occ))
      then [\<lparr>start = minutesToTime c, end_time = start occ\<rparr>] else [])
     @ deriveFreeSlots rest (js_max c (timeToMinutes (end_time occ))) we_s"
proof -
  let ?c' = "js_max c (timeToMinutes (end_time occ))"
  let ?g = "if js_lt c (timeToMinutes (start occ))
      then [\<lparr>start = minutesToTime c, end_time = start occ\<rparr>] else []"
  have "invert_loop [] c (occ # rest) = invert_loop ?g ?c' rest"
    by (simp add: Let_def)
  also have "\<dots> = (?g @ fst (invert_loop [] ?c' rest), snd (invert_loop [] ?c' rest))"
    by (rule invert_loop_append)
  finally show ?thesis
    by (simp add: deriveFreeSlots_def split: prod.splits)
qed

lemma deriveFreeSlots_refines:
  assumes "timeToMinutes we_s = Num we"
  shows "0 \<le> cur \<Longrightarrow> \<forall>x \<in> set m. 0 \<le> fst x \<and> 0 \<le> snd x \<Longrightarrow>
    list_all2 slot_is (deriveFreeSlots (map slot_of m) (Num cur) we_s) (free_scan cur we m)"
proof (induction m arbitrary: cur)
  case Nil
  then show ?case
    by (simp add: deriveFreeSlots_Nil assms slot_is_def roundtrip)
next
  case (Cons x m)
  obtain s e where x: "x = (s, e)" by (cases x)
  have se: "0 \<le> s" "0 \<le> e" "\<forall>x \<in> set m. 0 \<le> fst x \<and> 0 \<le> snd x"
    using Cons.prems(2) x by auto
  have t: "timeToMinutes (start (slot_of (s, e))) = Num s"
    "timeToMinutes (end_time (slot_of (s, e))) = Num e"
    using se by (simp_all add: slot_of_def roundtrip)
  have "0 \<le> max cur e" using se by simp
  from Cons.IH[OF this se(3)] show ?case
    using Cons.prems(1) 
    by (simp add: x deriveFreeSlots_Cons t slot_is_def roundtrip)
qed


lemma validTime_minutesOf: "validTime t \<Longrightarrow> timeToMinutes t = Num (minutesOf t) \<and> 0 \<le> minutesOf t"
  by (auto simp: validTime_iff minutesOf_def)

lemma list_all2_slot_is_minutes: "list_all2 slot_is sls xs \<Longrightarrow> map slot_minutes sls = xs"
  by (induction rule: list_all2_induct) (simp_all add: slot_is_minutes)

lemma list_all2_slot_is_valid:
  "list_all2 slot_is sls xs \<Longrightarrow> \<forall>x \<in> set xs. 0 \<le> fst x \<and> 0 \<le> snd x \<Longrightarrow>
   \<forall>sl \<in> set sls. validSlot sl"
  by (induction rule: list_all2_induct) (auto simp: slot_is_def validSlot_def validTime_iff)

lemma list_all2_slot_of:
  "\<forall>x \<in> set xs. 0 \<le> fst x \<and> 0 \<le> snd x \<Longrightarrow> list_all2 slot_is (map slot_of xs) xs"
  by (induction xs) (simp_all add: slot_of_is)

lemma mergeOccupied_refines:
  assumes "validTime ws_s" "validTime we_s" "\<forall>sl \<in> set occ. validSlot sl"
  shows "mergeOccupied occ ws_s we_s
           = map slot_of (merged_minutes (minutesOf ws_s) (minutesOf we_s) occ)"
proof -
  let ?k = "\<lambda>sl. fst (slot_minutes sl)"
  let ?cmp = "\<lambda>a b. js_sub (timeToMinutes (start a)) (timeToMinutes (start b))"
  have w: "timeToMinutes ws_s = Num (minutesOf ws_s)" "0 \<le> minutesOf ws_s"
    "timeToMinutes we_s = Num (minutesOf we_s)" "0 \<le> minutesOf we_s"
    using assms(1,2) validTime_minutesOf by auto
  have "\<forall>x \<in> set occ. \<forall>y \<in> set occ. js_gt (?cmp x y) (Num 0) \<longleftrightarrow> ?k y < ?k x"
    using assms(3) validSlot_is by (fastforce simp: slot_is_def)
  then have srt: "js_sort ?cmp occ = sort_key ?k occ" by (rule js_sort_key)
  have v: "\<forall>sl \<in> set (sort_key ?k occ). validSlot sl" using assms(3) by simp
  have "merge_loop (Num (minutesOf ws_s)) (Num (minutesOf we_s)) (map slot_of (rev [])) (sort_key ?k occ)
      = map slot_of (merge_scan [] (map (\<lambda>sl. clip (minutesOf ws_s) (minutesOf we_s) (slot_minutes sl)) (sort_key ?k occ)))"
    by (rule merge_loop_refines[OF w(2) w(4) v]) simp
  then show ?thesis
    by (simp add: mergeOccupied_def w srt merged_minutes_def)
qed

lemma sorted_clipped:
  "sorted (map fst (map (\<lambda>sl. clip ws we (slot_minutes sl)) (sort_key (\<lambda>sl. fst (slot_minutes sl)) occ)))"
proof -
  have "sorted (map (\<lambda>sl. fst (slot_minutes sl)) (sort_key (\<lambda>sl. fst (slot_minutes sl)) occ))"
    by (rule sorted_sort_key)
  then have "sorted_wrt (\<lambda>x y. fst (slot_minutes x) \<le> fst (slot_minutes y)) (sort_key (\<lambda>sl. fst (slot_minutes sl)) occ)"
    by (simp add: sorted_map)
  then have "sorted_wrt (\<lambda>x y. max (fst (slot_minutes x)) ws \<le> max (fst (slot_minutes y)) ws) (sort_key (\<lambda>sl. fst (slot_minutes sl)) occ)"
    by (rule sorted_wrt_mono_rel[rotated]) auto
  then show ?thesis by (simp add: sorted_map clip_def comp_def)
qed

lemma merged_minutes_separated: "separated (merged_minutes ws we occ)"
  unfolding merged_minutes_def by (rule merge_scan_separated) simp

lemma merged_minutes_in_window: "in_window ws we (merged_minutes ws we occ)"
  unfolding merged_minutes_def
  by (rule merge_scan_in_window) (auto simp: in_window_def clip_def)

lemma merged_minutes_cover: "cover (merged_minutes ws we occ) = occupied_minutes ws we occ"
proof -
  have "cover (merged_minutes ws we occ)
      = cover [] \<union> cover (map (\<lambda>sl. clip ws we (slot_minutes sl)) (sort_key (\<lambda>sl. fst (slot_minutes sl)) occ))"
    unfolding merged_minutes_def
    by (rule merge_scan_cover[OF sorted_clipped]) (simp add: head_before_def)
  also have "\<dots> = occupied_minutes ws we occ"
    by (auto simp: cover_def occupied_minutes_def clip_def)
  finally show ?thesis .
qed

lemma merged_minutes_nonneg:
  "0 \<le> ws \<Longrightarrow> \<forall>x \<in> set (merged_minutes ws we occ). 0 \<le> fst x \<and> 0 \<le> snd x"
  using merged_minutes_in_window[of ws we occ] merged_minutes_separated[of ws we occ]
  by (fastforce simp: in_window_def separated_def)

lemma mergeOccupied_slot_is:
  assumes "validTime ws_s" "validTime we_s" "\<forall>sl \<in> set occ. validSlot sl"
  shows "list_all2 slot_is (mergeOccupied occ ws_s we_s)
           (merged_minutes (minutesOf ws_s) (minutesOf we_s) occ)"
  unfolding mergeOccupied_refines[OF assms]
  using assms(1) by (intro list_all2_slot_of merged_minutes_nonneg) (simp add: validTime_minutesOf)

lemma separated_sorted: "separated xs \<Longrightarrow> sorted (map fst xs)"
proof -
  assume a: "separated xs"
  then have "sorted_wrt (\<lambda>a b. snd a < fst b) xs" by (simp add: separated_def)
  then have "sorted_wrt (\<lambda>a b. fst a \<le> fst b) xs"
    using a by (rule_tac sorted_wrt_mono_rel[rotated]) (fastforce simp: separated_def)+
  then show ?thesis by (simp add: sorted_map)
qed


lemma free_scan_tiles:
  "separated m \<Longrightarrow> in_window cur we m \<Longrightarrow> cur \<le> we \<Longrightarrow>
   \<exists>zs. tiles cur we zs \<and> mset zs = mset m + mset (free_scan cur we m)"
proof (induction m arbitrary: cur)
  case Nil
  show ?case
  proof (cases "cur < we")
    case True
    then have "tiles cur we [(cur, we)] \<and> mset [(cur, we)] = mset [] + mset (free_scan cur we [])"
      by simp
    then show ?thesis by blast
  next
    case False
    then have "tiles cur we [] \<and> mset [] = mset [] + mset (free_scan cur we [])"
      using Nil by simp
    then show ?thesis by blast
  qed
next
  case (Cons x m)
  obtain s e where x: "x = (s, e)" by (cases x)
  have p: "s < e" "\<forall>(a, b) \<in> set m. e < a" "separated m"
    using Cons.prems(1) x by (auto simp: separated_Cons)
  have w: "cur \<le> s" "e \<le> we" "\<forall>(a, b) \<in> set m. b \<le> we"
    using Cons.prems(2) x by (auto simp: in_window_def)
  have "in_window e we m" using p(2) w(3) by (fastforce simp: in_window_def)
  from Cons.IH[OF p(3) this w(2)] obtain zs where
    zs: "tiles e we zs" "mset zs = mset m + mset (free_scan e we m)" by blast
  have mx: "max cur e = e" using w(1) p(1) by simp
  show ?case
  proof (cases "cur < s")
    case True
    have "tiles cur we ((cur, s) # (s, e) # zs)
        \<and> mset ((cur, s) # (s, e) # zs) = mset (x # m) + mset (free_scan cur we (x # m))"
      using True p(1) zs by (simp add: x mx)
    then show ?thesis by blast
  next
    case False
    then have "cur = s" using w(1) by simp
    then have "tiles cur we ((s, e) # zs)
        \<and> mset ((s, e) # zs) = mset (x # m) + mset (free_scan cur we (x # m))"
      using p(1) zs by (simp add: x mx)
    then show ?thesis by blast
  qed
qed

lemma free_scan_separated:
  "separated m \<Longrightarrow> in_window cur we m \<Longrightarrow>
   separated (free_scan cur we m) \<and> in_window cur we (free_scan cur we m)"
proof (induction m arbitrary: cur)
  case Nil
  then show ?case by (simp add: separated_def in_window_def)
next
  case (Cons x m)
  obtain s e where x: "x = (s, e)" by (cases x)
  have p: "s < e" "\<forall>(a, b) \<in> set m. e < a" "separated m"
    using Cons.prems(1) x by (auto simp: separated_Cons)
  have w: "cur \<le> s" "e \<le> we" "\<forall>(a, b) \<in> set m. b \<le> we"
    using Cons.prems(2) x by (auto simp: in_window_def)
  have "in_window e we m" using p(2) w(3) by (fastforce simp: in_window_def)
  from Cons.IH[OF p(3) this] have
    ih: "separated (free_scan e we m)" "in_window e we (free_scan e we m)" by simp_all
  have mx: "max cur e = e" using w(1) p(1) by simp
  have win: "in_window cur we (free_scan e we m)"
    using ih(2) w(1) p(1) by (fastforce simp: in_window_def)
  show ?case
  proof (cases "cur < s")
    case True
    have "\<forall>(a, b) \<in> set (free_scan e we m). s < a"
      using ih(2) p(1) by (fastforce simp: in_window_def)
    then have "separated ((cur, s) # free_scan e we m)"
      using True ih(1) by (simp add: separated_Cons)
    moreover have "in_window cur we ((cur, s) # free_scan e we m)"
      using win p(1) w(2) by (simp add: in_window_def)
    ultimately show ?thesis using True by (simp add: x mx)
  next
    case False
    then show ?thesis using ih(1) win by (simp add: x mx)
  qed
qed

lemma tiles_sorted:
  "tiles lo hi zs \<Longrightarrow>
   sorted (map fst zs) \<and> distinct (map fst zs) \<and> (\<forall>z \<in> set zs. lo \<le> fst z)"
proof (induction zs arbitrary: lo)
  case Nil
  then show ?case by simp
next
  case (Cons z zs)
  obtain s e where z: "z = (s, e)" by (cases z)
  have t: "s = lo" "s < e" "tiles e hi zs" using Cons.prems z by simp_all
  from Cons.IH[OF t(3)] have
    ih: "sorted (map fst zs)" "distinct (map fst zs)" "\<forall>z \<in> set zs. e \<le> fst z" by simp_all
  show ?case using ih t(1,2) by (fastforce simp: z)
qed

lemma sort_key_unique:
  fixes f :: "'a \<Rightarrow> 'b::linorder"
  assumes "sorted (map f zs)" "distinct (map f zs)" "mset zs = mset xs"
  shows "sort_key f xs = zs"
proof -
  have m: "mset (map f (sort_key f xs)) = mset (map f zs)"
    using assms(3) by simp
  have "distinct (map f (sort_key f xs))"
    using assms(2) m by (metis mset_eq_imp_distinct_iff)
  moreover have "set (map f (sort_key f xs)) = set (map f zs)"
    using m by (metis set_mset_mset)
  ultimately have eq: "map f (sort_key f xs) = map f zs"
    using assms(1,2) sorted_sort_key[of f xs]
    by (intro sorted_distinct_set_unique)
  have "set (sort_key f xs) = set zs" using assms(3) by (metis set_sort mset_eq_setD)
  moreover have "inj_on f (set zs)" using assms(2) by (simp add: distinct_map)
  ultimately have "inj_on f (set (sort_key f xs) \<union> set zs)" by simp
  then show ?thesis using eq by (simp add: inj_on_map_eq_map)
qed

lemma findFreeSlots_slot_is:
  assumes "validTime ws_s" "validTime we_s" "\<forall>sl \<in> set occ. validSlot sl"
  shows "list_all2 slot_is (findFreeSlots occ ws_s we_s)
           (free_scan (minutesOf ws_s) (minutesOf we_s)
              (merged_minutes (minutesOf ws_s) (minutesOf we_s) occ))"
proof -
  have w: "timeToMinutes ws_s = Num (minutesOf ws_s)" "0 \<le> minutesOf ws_s"
    "timeToMinutes we_s = Num (minutesOf we_s)"
    using assms(1,2) validTime_minutesOf by auto
  show ?thesis
    unfolding findFreeSlots_def mergeOccupied_refines[OF assms] w(1)
    by (rule deriveFreeSlots_refines[OF w(3) w(2) merged_minutes_nonneg[OF w(2)]])
qed

lemma free_minutes_props:
  "separated (free_scan ws we (merged_minutes ws we occ))
   \<and> in_window ws we (free_scan ws we (merged_minutes ws we occ))"
  by (rule free_scan_separated[OF merged_minutes_separated merged_minutes_in_window])

lemma free_minutes_nonneg:
  "0 \<le> ws \<Longrightarrow> \<forall>x \<in> set (free_scan ws we (merged_minutes ws we occ)). 0 \<le> fst x \<and> 0 \<le> snd x"
  using free_minutes_props[of ws we occ]
  by (fastforce simp: in_window_def separated_def)

section \<open>Merging a merged list\<close>

lemma occupied_minutes_slot_of:
  assumes "in_window ws we xs" "\<forall>x \<in> set xs. 0 \<le> fst x \<and> 0 \<le> snd x"
  shows "occupied_minutes ws we (map slot_of xs) = cover xs"
proof -
  have "\<And>x. x \<in> set xs \<Longrightarrow> slot_minutes (slot_of x) = x"
    using assms(2) slot_of_is slot_is_minutes by blast
  moreover have "\<And>x. x \<in> set xs \<Longrightarrow> max (fst x) ws = fst x \<and> min (snd x) we = snd x"
    using assms by (fastforce simp: in_window_def)
  ultimately show ?thesis
    by (auto simp: occupied_minutes_def cover_def)
qed

section \<open>The results of the room query engine\<close>

lemma slot_loop_eq:
  "slot_loop rm dy t m acc fs = acc @ map (result_of rm dy) (filter (keeps t m) fs)"
  by (induction fs arbitrary: acc) (simp_all add: Let_def keeps_def result_of_def)

lemma foldl_room_step:
  "foldl (room_step dy t m) acc merged = acc @ concat (map (room_results dy t m) merged)"
proof (induction merged arbitrary: acc)
  case Nil
  then show ?case by simp
next
  case (Cons entry merged)
  have "room_step dy t m acc entry = acc @ room_results dy t m entry"
    by (cases entry) (simp add: room_step_def room_results_def slot_loop_eq)
  then show ?case using Cons by simp
qed

lemma set_findFreeRooms:
  "set (findFreeRooms S dy t m)
     = (\<Union>entry \<in> set (mergeRoomSchedules S). set (room_results dy t m entry))"
  by (simp add: findFreeRooms_def set_js_sort foldl_room_step)

lemma mergeRoomSchedules_snoc:
  "mergeRoomSchedules (S @ [sch]) = add_schedule (mergeRoomSchedules S) sch"
  by (simp add: mergeRoomSchedules_def)

lemma add_schedule_keys:
  "fst ` set (add_schedule merged sch) = insert (room sch) (fst ` set merged)"
  by (simp add: add_schedule_def Let_def dom_update)

lemma add_schedule_distinct:
  "distinct (map fst merged) \<Longrightarrow> distinct (map fst (add_schedule merged sch))"
  by (simp add: add_schedule_def Let_def distinct_update)

lemma add_schedule_slots:
  "slots_for (add_schedule merged sch) rm dy
     = slots_for merged rm dy @ (if room sch = rm \<and> day sch = dy then occupied sch else [])"
  by (auto simp: slots_for_def add_schedule_def Let_def update_conv' split: option.splits)

lemma mergeRoomSchedules_keys: "fst ` set (mergeRoomSchedules S) = room ` set S"
  by (induction S rule: rev_induct)
    (auto simp: mergeRoomSchedules_snoc add_schedule_keys mergeRoomSchedules_def)

lemma mergeRoomSchedules_distinct: "distinct (map fst (mergeRoomSchedules S))"
  by (induction S rule: rev_induct)
    (simp_all add: mergeRoomSchedules_snoc add_schedule_distinct mergeRoomSchedules_def)

lemma mergeRoomSchedules_slots:
  "slots_for (mergeRoomSchedules S) rm dy
     = concat (map occupied (filter (\<lambda>s. room s = rm \<and> day s = dy) S))"
proof (induction S rule: rev_induct)
  case Nil
  then show ?case by (simp add: mergeRoomSchedules_def slots_for_def)
next
  case (snoc sch S)
  then show ?case by (simp add: mergeRoomSchedules_snoc add_schedule_slots)
qed

lemma entry_slots:
  assumes "entry \<in> set (mergeRoomSchedules S)"
  shows "(case map_of (snd entry) dy of None \<Rightarrow> [] | Some xs \<Rightarrow> xs)
           = concat (map occupied (filter (\<lambda>s. room s = fst entry \<and> day s = dy) S))"
proof -
  obtain rm dm where e: "entry = (rm, dm)" by (cases entry)
  have "map_of (mergeRoomSchedules S) rm = Some dm"
    using assms e mergeRoomSchedules_distinct by simp
  then have "slots_for (mergeRoomSchedules S) rm dy
      = (case map_of dm dy of None \<Rightarrow> [] | Some xs \<Rightarrow> xs)"
    by (simp add: slots_for_def)
  then show ?thesis using mergeRoomSchedules_slots[of S rm dy] e by simp
qed

lemma window_valid:
  "validTime (start OPERATING_HOURS) \<and> validTime (end_time OPERATING_HOURS)
   \<and> minutesOf (start OPERATING_HOURS) = 540 \<and> minutesOf (end_time OPERATING_HOURS) = 1170"
  by code_simp

text \<open>The free slots of a room of the aggregated map, on valid schedules.\<close>

lemma entry_free_slots:
  assumes "validSchedules S" "entry \<in> set (mergeRoomSchedules S)"
  shows "\<exists>fm. list_all2 slot_is
            (findFreeSlots (case map_of (snd entry) dy of None \<Rightarrow> [] | Some xs \<Rightarrow> xs)
               (start OPERATING_HOURS) (end_time OPERATING_HOURS)) fm
          \<and> separated fm \<and> in_window 540 1170 fm"
proof -
  let ?occ = "case map_of (snd entry) dy of None \<Rightarrow> [] | Some xs \<Rightarrow> xs"
  have "\<forall>sl \<in> set ?occ. validSlot sl"
    unfolding entry_slots[OF assms(2)] using assms(1) by (auto simp: validSchedules_def)
  then have "list_all2 slot_is
      (findFreeSlots ?occ (start OPERATING_HOURS) (end_time OPERATING_HOURS))
      (free_scan 540 1170 (merged_minutes 540 1170 ?occ))"
    using findFreeSlots_slot_is[of "start OPERATING_HOURS" "end_time OPERATING_HOURS" ?occ]
      window_valid by simp
  then show ?thesis using free_minutes_props[of 540 1170 ?occ] by blast
qed

lemma list_all2_memD:
  "list_all2 P xs ys \<Longrightarrow> x \<in> set xs \<Longrightarrow> \<exists>y \<in> set ys. P x y"
  by (induction rule: list_all2_induct) auto

text \<open>Every result comes from a free slot of a room of the data, with its numbers.\<close>

lemma result_cases:
  assumes "validSchedules S" "r \<in> set (findFreeRooms S dy t m)"
  obtains sl a b where "r = result_of (fr_room r) dy sl" "fr_room r \<in> room ` set S"
    "keeps t m sl" "timeToMinutes (start sl) = Num a" "timeToMinutes (end_time sl) = Num b"
    "540 \<le> a" "a < b" "b \<le> 1170"
proof -
  from assms(2) obtain entry where
    e: "entry \<in> set (mergeRoomSchedules S)" "r \<in> set (room_results dy t m entry)"
    by (auto simp: set_findFreeRooms)
  let ?fs = "findFreeSlots (case map_of (snd entry) dy of None \<Rightarrow> [] | Some xs \<Rightarrow> xs)
               (start OPERATING_HOURS) (end_time OPERATING_HOURS)"
  from e(2) obtain sl where sl: "sl \<in> set ?fs" "keeps t m sl" "r = result_of (fst entry) dy sl"
    by (auto simp: room_results_def)
  from entry_free_slots[OF assms(1) e(1)] obtain fm where
    fm: "list_all2 slot_is ?fs fm" "separated fm" "in_window 540 1170 fm" by blast
  from list_all2_memD[OF fm(1) sl(1)] obtain x where x: "x \<in> set fm" "slot_is sl x" by blast
  have rm: "fr_room r = fst entry" using sl(3) by (simp add: result_of_def)
  have "fst entry \<in> room ` set S"
    using e(1) mergeRoomSchedules_keys[of S] by (metis imageI)
  moreover have "540 \<le> fst x" "fst x < snd x" "snd x \<le> 1170"
    using x(1) fm(2,3) by (auto simp: separated_def in_window_def)
  ultimately show ?thesis
    using that[of sl "fst x" "snd x"] sl x(2) rm by (simp add: slot_is_def)
qed


lemma contains_at_most_one:
  "separated xs \<Longrightarrow> length (filter (\<lambda>x. fst x \<le> t \<and> t < snd x) xs) \<le> 1"
proof (induction xs)
  case Nil
  then show ?case by simp
next
  case (Cons x xs)
  obtain s e where x: "x = (s, e)" by (cases x)
  have p: "\<forall>(a, b) \<in> set xs. e < a" "separated xs"
    using Cons.prems x by (auto simp: separated_Cons)
  show ?case
  proof (cases "s \<le> t \<and> t < e")
    case True
    have "\<forall>x \<in> set xs. \<not> (fst x \<le> t \<and> t < snd x)"
      using p(1) True by fastforce
    then have "filter (\<lambda>x. fst x \<le> t \<and> t < snd x) xs = []"
      by (simp add: filter_empty_conv)
    then show ?thesis by (simp add: x)
  next
    case False
    then show ?thesis using Cons.IH[OF p(2)] by (auto simp: x)
  qed
qed

lemma length_filter_mono:
  "\<forall>x \<in> set xs. P x \<longrightarrow> Q x \<Longrightarrow> length (filter P xs) \<le> length (filter Q xs)"
  by (induction xs) auto

lemma distinct_concat_keys:
  assumes "distinct (map fst xs)"
    "\<forall>entry \<in> set xs. length (g entry) \<le> 1 \<and> (\<forall>r \<in> set (g entry). f r = fst entry)"
  shows "distinct (map f (concat (map g xs)))"
  using assms
proof (induction xs)
  case Nil
  then show ?case by simp
next
  case (Cons entry xs)
  have ih: "distinct (map f (concat (map g xs)))" using Cons by simp
  have one: "distinct (map f (g entry))"
    using Cons.prems(2) by (cases "g entry") auto
  have here: "\<forall>r \<in> set (g entry). f r = fst entry" using Cons.prems(2) by simp
  have there: "\<forall>r \<in> set (concat (map g xs)). f r \<in> fst ` set xs"
  proof
    fix r assume "r \<in> set (concat (map g xs))"
    then obtain e where e: "e \<in> set xs" "r \<in> set (g e)" by auto
    then have "f r = fst e" using Cons.prems(2) by simp
    then show "f r \<in> fst ` set xs" using e(1) by simp
  qed
  have notin: "fst entry \<notin> fst ` set xs" using Cons.prems(1) by simp
  have "f ` set (g entry) \<inter> f ` set (concat (map g xs)) = {}"
  proof (rule ccontr)
    assume "f ` set (g entry) \<inter> f ` set (concat (map g xs)) \<noteq> {}"
    then obtain r1 r2 where r: "r1 \<in> set (g entry)" "r2 \<in> set (concat (map g xs))" "f r1 = f r2"
      by (auto simp del: set_concat)
    have "f r1 = fst entry" using here r(1) by (rule bspec)
    moreover have "f r2 \<in> fst ` set xs" using there r(2) by (rule bspec)
    ultimately show False using notin r(3) by simp
  qed
  then show ?case using ih one by simp
qed

lemma room_results_at_most_one:
  assumes "validSchedules S" "validTime T" "entry \<in> set (mergeRoomSchedules S)"
  shows "length (room_results dy (Some T) m entry) \<le> 1"
proof -
  let ?fs = "findFreeSlots (case map_of (snd entry) dy of None \<Rightarrow> [] | Some xs \<Rightarrow> xs)
               (start OPERATING_HOURS) (end_time OPERATING_HOURS)"
  obtain n where n: "timeToMinutes T = Num n" using assms(2) by (auto simp: validTime_iff)
  have ne: "T \<noteq> []" using n by (auto simp: timeToMinutes_def)
  from entry_free_slots[OF assms(1,3)] obtain fm where
    fm: "list_all2 slot_is ?fs fm" "separated fm" by blast
  have "\<forall>sl \<in> set ?fs. keeps (Some T) m sl \<longrightarrow>
      fst (slot_minutes sl) \<le> n \<and> n < snd (slot_minutes sl)"
  proof (intro ballI impI)
    fix sl assume a: "sl \<in> set ?fs" "keeps (Some T) m sl"
    from list_all2_memD[OF fm(1) a(1)] obtain x where x: "slot_is sl x" by blast
    then have "slot_minutes sl = x" by (rule slot_is_minutes)
    moreover have "\<not> misses_target (Some T) (Num (fst x)) (Num (snd x))"
      using a(2) x by (simp add: keeps_def slot_is_def)
    ultimately show "fst (slot_minutes sl) \<le> n \<and> n < snd (slot_minutes sl)"
      using ne by (simp add: misses_target_def n not_less not_le)
  qed
  then have "length (filter (keeps (Some T) m) ?fs)
      \<le> length (filter (\<lambda>sl. fst (slot_minutes sl) \<le> n \<and> n < snd (slot_minutes sl)) ?fs)"
    by (rule length_filter_mono)
  also have "\<dots> = length (filter (\<lambda>x. fst x \<le> n \<and> n < snd x) (map slot_minutes ?fs))"
    by (simp add: filter_map comp_def)
  also have "\<dots> \<le> 1"
    unfolding list_all2_slot_is_minutes[OF fm(1)] by (rule contains_at_most_one[OF fm(2)])
  finally show ?thesis by (simp add: room_results_def)
qed

lemma compare_rooms_key:
  assumes "duration a = Num da" "duration b = Num db"
    "js_parseInt (fr_room a) = Num pa" "js_parseInt (fr_room b) = Num pb"
  shows "js_gt (compare_rooms a b) (Num 0) \<longleftrightarrow> room_key b < room_key a"
  using assms by (auto simp: compare_rooms_def room_key_def)

lemma room_key_order:
  assumes "duration a = Num da" "duration b = Num db"
    "js_parseInt (fr_room a) = Num pa" "js_parseInt (fr_room b) = Num pb"
    "room_key a \<le> room_key b"
  shows "result_order a b"
  using assms by (auto simp: result_order_def room_key_def)

section \<open>The caller's completion and the rooms of the result\<close>

lemma in_set_updateD:
  "(k', v') \<in> set (AList.update k v al) \<Longrightarrow> (k', v') = (k, v) \<or> (k', v') \<in> set al"
  by (induction al) (auto split: if_splits)

lemma keyed_update:
  assumes "keyed S m" "k = schedule_key (room g) (day g)"
    "\<forall>sl \<in> set (occupied g).
       \<exists>s \<in> set S. schedule_key (room s) (day s) = k \<and> sl \<in> set (occupied s)"
  shows "keyed S (AList.update k g m)"
  unfolding keyed_def
proof (intro ballI, clarify)
  fix k' g' assume "(k', g') \<in> set (AList.update k g m)"
  then have "(k', g') = (k, g) \<or> (k', g') \<in> set m" by (rule in_set_updateD)
  then show "k' = schedule_key (room g') (day g')
        \<and> (\<forall>sl \<in> set (occupied g').
              \<exists>s \<in> set S. schedule_key (room s) (day s) = k' \<and> sl \<in> set (occupied s))"
    using assms by (auto simp: keyed_def)
qed

lemma add_existing_keyed:
  assumes "keyed S m" "sch \<in> set S"
  shows "keyed S (add_existing m sch)"
proof (cases "map_of m (schedule_key (room sch) (day sch))")
  case None
  have "keyed S (AList.update (schedule_key (room sch) (day sch)) sch m)"
    using assms(2) by (intro keyed_update[OF assms(1)]) auto
  then show ?thesis using None by (simp add: add_existing_def)
next
  case (Some existing)
  let ?k = "schedule_key (room sch) (day sch)"
  let ?g = "existing\<lparr>occupied := occupied existing @ occupied sch\<rparr>"
  have "(?k, existing) \<in> set m" using Some by (rule map_of_SomeD)
  then have ex: "?k = schedule_key (room existing) (day existing)"
    "\<forall>sl \<in> set (occupied existing).
       \<exists>s \<in> set S. schedule_key (room s) (day s) = ?k \<and> sl \<in> set (occupied s)"
    using assms(1) by (auto simp: keyed_def)
  have "keyed S (AList.update ?k ?g m)"
  proof (rule keyed_update[OF assms(1)])
    show "?k = schedule_key (room ?g) (day ?g)" using ex(1) by simp
    show "\<forall>sl \<in> set (occupied ?g).
       \<exists>s \<in> set S. schedule_key (room s) (day s) = ?k \<and> sl \<in> set (occupied s)"
      using ex(2) assms(2) by auto
  qed
  then show ?thesis using Some by (simp add: add_existing_def)
qed

lemma foldl_add_existing_keyed:
  "keyed S m \<Longrightarrow> set xs \<subseteq> set S \<Longrightarrow> keyed S (foldl add_existing m xs)"
  by (induction xs arbitrary: m) (simp_all add: add_existing_keyed)

lemma ensure_entry_keyed: "keyed S m \<Longrightarrow> keyed S (ensure_entry rm m dy)"
  by (auto simp: ensure_entry_def Let_def intro!: keyed_update)

lemma ensure_entry_keys:
  "fst ` set (ensure_entry rm m dy) = insert (schedule_key rm dy) (fst ` set m)"
proof (cases "map_of m (schedule_key rm dy)")
  case None
  then show ?thesis by (simp add: ensure_entry_def dom_update)
next
  case (Some g)
  then have "schedule_key rm dy \<in> fst ` set m"
    by (metis map_of_eq_None_iff option.distinct(1))
  then show ?thesis using Some by (auto simp: ensure_entry_def)
qed

lemma foldl_days:
  "keyed S m \<Longrightarrow>
   keyed S (foldl (ensure_entry rm) m ds)
   \<and> fst ` set (foldl (ensure_entry rm) m ds) = fst ` set m \<union> schedule_key rm ` set ds"
  by (induction ds arbitrary: m) (auto simp: ensure_entry_keyed ensure_entry_keys)

lemma foldl_rooms:
  "keyed S m \<Longrightarrow>
   keyed S (foldl (\<lambda>m rm. foldl (ensure_entry rm) m ds) m rs)
   \<and> fst ` set (foldl (\<lambda>m rm. foldl (ensure_entry rm) m ds) m rs)
       = fst ` set m \<union> (\<Union>rm \<in> set rs. schedule_key rm ` set ds)"
proof (induction rs arbitrary: m)
  case Nil
  then show ?case by simp
next
  case (Cons rm rs)
  have d: "keyed S (foldl (ensure_entry rm) m ds)"
    "fst ` set (foldl (ensure_entry rm) m ds) = fst ` set m \<union> schedule_key rm ` set ds"
    using foldl_days[OF Cons.prems] by simp_all
  from Cons.IH[OF d(1)] show ?case by (simp add: d(2) Un_assoc)
qed

lemma schedule_key_inj:
  assumes "schedule_key a b = schedule_key rm dy" "CHR ''-'' \<notin> set rm" "CHR ''-'' \<notin> set dy"
  shows "a = rm \<and> b = dy"
proof -
  have eq: "a @ CHR ''-'' # b = rm @ CHR ''-'' # dy" using assms(1) by (simp add: schedule_key_def)
  then obtain us where us: "a = rm @ us \<and> us @ CHR ''-'' # b = CHR ''-'' # dy
      \<or> a @ us = rm \<and> CHR ''-'' # b = us @ CHR ''-'' # dy"
    by (auto simp: append_eq_append_conv2)
  have "us = []"
  proof (cases us)
    case Nil
    then show ?thesis .
  next
    case (Cons c cs)
    from us show ?thesis
    proof
      assume a: "a = rm @ us \<and> us @ CHR ''-'' # b = CHR ''-'' # dy"
      then have "dy = cs @ CHR ''-'' # b" using Cons by simp
      then show ?thesis using assms(3) by simp
    next
      assume a: "a @ us = rm \<and> CHR ''-'' # b = us @ CHR ''-'' # dy"
      then have "c = CHR ''-''" using Cons by simp
      then have "CHR ''-'' \<in> set rm" using a Cons by auto
      then show ?thesis using assms(2) by simp
    qed
  qed
  then show ?thesis using us by auto
qed

lemma roster_no_dash:
  "rm \<in> set ALL_ROOMS \<Longrightarrow> CHR ''-'' \<notin> set rm" "dy \<in> set DAYS \<Longrightarrow> CHR ''-'' \<notin> set dy"
  by (auto simp: ALL_ROOMS_def DAYS_def)

lemma getCompleteSchedules_roster:
  assumes "rm \<in> set ALL_ROOMS" "dy \<in> set DAYS"
  shows "(\<exists>g \<in> set (getCompleteSchedules S). room g = rm \<and> day g = dy)
    \<and> (\<forall>g \<in> set (getCompleteSchedules S). room g = rm \<and> day g = dy \<longrightarrow>
          (\<forall>sl \<in> set (occupied g). \<exists>s \<in> set S. room s = rm \<and> day s = dy \<and> sl \<in> set (occupied s)))"
proof -
  let ?base = "foldl add_existing [] S"
  let ?m = "foldl (\<lambda>m rm. foldl (ensure_entry rm) m DAYS) ?base ALL_ROOMS"
  have "keyed S []" by (simp add: keyed_def)
  then have "keyed S ?base" by (rule foldl_add_existing_keyed) simp
  from foldl_rooms[OF this] have
    k: "keyed S ?m" and
    keys: "fst ` set ?m = fst ` set ?base \<union> (\<Union>rm \<in> set ALL_ROOMS. schedule_key rm ` set DAYS)"
    by simp_all
  have g: "set (getCompleteSchedules S) = snd ` set ?m"
    by (simp add: getCompleteSchedules_def)
  have nd: "CHR ''-'' \<notin> set rm" "CHR ''-'' \<notin> set dy" using assms roster_no_dash by simp_all
  have "schedule_key rm dy \<in> fst ` set ?m" using keys assms by blast
  then obtain g0 where g0: "(schedule_key rm dy, g0) \<in> set ?m" by auto
  then have "schedule_key rm dy = schedule_key (room g0) (day g0)"
    using k by (auto simp: keyed_def)
  then have "room g0 = rm \<and> day g0 = dy" using schedule_key_inj[OF _ nd] by metis
  moreover have "g0 \<in> set (getCompleteSchedules S)" using g0 g by force
  ultimately have 1: "\<exists>g \<in> set (getCompleteSchedules S). room g = rm \<and> day g = dy" by blast
  have 2: "\<forall>g \<in> set (getCompleteSchedules S). room g = rm \<and> day g = dy \<longrightarrow>
          (\<forall>sl \<in> set (occupied g). \<exists>s \<in> set S. room s = rm \<and> day s = dy \<and> sl \<in> set (occupied s))"
  proof (intro ballI impI)
    fix g' sl assume a: "g' \<in> set (getCompleteSchedules S)" "room g' = rm \<and> day g' = dy"
      "sl \<in> set (occupied g')"
    from a(1) g obtain k' where k': "(k', g') \<in> set ?m" by auto
    then obtain s where s: "s \<in> set S" "schedule_key (room s) (day s) = k'" "sl \<in> set (occupied s)"
      "k' = schedule_key (room g') (day g')"
      using k a(3) by (fastforce simp: keyed_def)
    have "schedule_key (room s) (day s) = schedule_key rm dy" using s(2,4) a(2) by simp
    then have "room s = rm \<and> day s = dy" by (rule schedule_key_inj[OF _ nd])
    then show "\<exists>s \<in> set S. room s = rm \<and> day s = dy \<and> sl \<in> set (occupied s)"
      using s(1,3) by blast
  qed
  from 1 2 show ?thesis by blast
qed


lemma free_all_day_slots:
  "findFreeSlots [] (start OPERATING_HOURS) (end_time OPERATING_HOURS)
     = [\<lparr>start = ''09:00'', end_time = ''19:30''\<rparr>]
   \<and> js_sub (timeToMinutes ''19:30'') (timeToMinutes ''09:00'') = Num 630"
  by code_simp

lemma result_room: "r \<in> set (findFreeRooms S dy t m) \<Longrightarrow> fr_room r \<in> room ` set S"
proof -
  assume "r \<in> set (findFreeRooms S dy t m)"
  then obtain entry where
    e: "entry \<in> set (mergeRoomSchedules S)" "r \<in> set (room_results dy t m entry)"
    by (auto simp: set_findFreeRooms)
  then have "fr_room r = fst entry" by (auto simp: room_results_def result_of_def)
  moreover have "fst entry \<in> room ` set S"
    using e(1) mergeRoomSchedules_keys[of S] by (metis imageI)
  ultimately show ?thesis by simp
qed

lemma free_all_day:
  assumes "sch \<in> set S" "noOccupancy S (room sch) dy"
  shows "freeAllDay (room sch) dy \<in> set (findFreeRooms S dy None None)"
proof -
  have "room sch \<in> fst ` set (mergeRoomSchedules S)"
    using assms(1) mergeRoomSchedules_keys[of S] by simp
  then obtain entry where e: "entry \<in> set (mergeRoomSchedules S)" "fst entry = room sch"
    by auto
  have "\<forall>s \<in> set S. room s = room sch \<and> day s = dy \<longrightarrow> occupied s = []"
    using assms(2) by (simp add: noOccupancy_def list_all_iff)
  then have "concat (map occupied (filter (\<lambda>s. room s = fst entry \<and> day s = dy) S)) = []"
    by (auto simp: e(2))
  then have "(case map_of (snd entry) dy of None \<Rightarrow> [] | Some xs \<Rightarrow> xs) = []"
    using entry_slots[OF e(1), of dy] by simp
  then have "room_results dy None None entry = [freeAllDay (room sch) dy]"
    using free_all_day_slots
    by (simp add: room_results_def keeps_def too_short_def misses_target_def result_of_def
        freeAllDay_def e(2))
  then show ?thesis using e(1) by (force simp: set_findFreeRooms)
qed


section \<open>The properties of the engine, on the clock times of the data model\<close>

lemma clockSlots_valid: "list_all clockSlot occ \<Longrightarrow> list_all validSlot occ"
  by (auto simp: list_all_iff clockSlot_def validSlot_def isClockTime_valid)

lemma clockSchedules_valid: "clockSchedules S \<Longrightarrow> validSchedules S"
  using clockSlots_valid by (auto simp: clockSchedules_def validSchedules_def list_all_iff)

text \<open>
  C1, the tiling invariant: for a window of clock times whose start is not after its end
  and occupied slots of clock times, the merged occupied slots together with the free
  slots of \<open>findFreeSlots\<close>, converted to minutes and sorted by start, tile the window: the
  first starts at the window's start, each is non-empty and ends where the next starts,
  and the last ends at the window's end. So they cover the window with no gap and no
  overlap.
\<close>

theorem C1_tiling:
  assumes "isClockTime ws" "isClockTime we" "minutesOf ws \<le> minutesOf we"
    "list_all clockSlot occ"
  shows "list_all validSlot (mergeOccupied occ ws we @ findFreeSlots occ ws we) \<and>
    tiles (minutesOf ws) (minutesOf we)
      (sort_key fst (map slot_minutes (mergeOccupied occ ws we @ findFreeSlots occ ws we)))"
proof -
  have valid: "validTime ws" "validTime we" "minutesOf ws \<le> minutesOf we"
    "list_all validSlot occ"
    using assms by (simp_all add: isClockTime_valid clockSlots_valid)
  let ?a = "minutesOf ws" and ?b = "minutesOf we"
  let ?m = "merged_minutes ?a ?b occ"
  let ?f = "free_scan ?a ?b ?m"
  have vo: "\<forall>sl \<in> set occ. validSlot sl" using valid(4) by (simp add: list_all_iff)
  have a0: "0 \<le> ?a" using valid(1) by (simp add: validTime_minutesOf)
  have rm: "list_all2 slot_is (mergeOccupied occ ws we) ?m"
    by (rule mergeOccupied_slot_is[OF valid(1,2) vo])
  have rf: "list_all2 slot_is (findFreeSlots occ ws we) ?f"
    by (rule findFreeSlots_slot_is[OF valid(1,2) vo])
  have vm: "\<forall>sl \<in> set (mergeOccupied occ ws we). validSlot sl"
    by (rule list_all2_slot_is_valid[OF rm merged_minutes_nonneg[OF a0]])
  have vf: "\<forall>sl \<in> set (findFreeSlots occ ws we). validSlot sl"
    by (rule list_all2_slot_is_valid[OF rf free_minutes_nonneg[OF a0]])
  have eq: "map slot_minutes (mergeOccupied occ ws we @ findFreeSlots occ ws we) = ?m @ ?f"
    using list_all2_slot_is_minutes[OF rm] list_all2_slot_is_minutes[OF rf] by simp
  obtain zs where zs: "tiles ?a ?b zs" "mset zs = mset ?m + mset ?f"
    using free_scan_tiles[OF merged_minutes_separated merged_minutes_in_window valid(3)]
    by blast
  have "sort_key fst (?m @ ?f) = zs"
    using tiles_sorted[OF zs(1)] zs(2) by (intro sort_key_unique) simp_all
  then have "tiles ?a ?b
      (sort_key fst (map slot_minutes (mergeOccupied occ ws we @ findFreeSlots occ ws we)))"
    unfolding eq using zs(1) by simp
  then show ?thesis using vm vf by (auto simp: list_all_iff)
qed

theorem C1_tiling_witness:
  "isClockTime ''09:00'' \<and> isClockTime ''19:30'' \<and> minutesOf ''09:00'' \<le> minutesOf ''19:30'' \<and>
   list_all clockSlot [\<lparr>start = ''14:30'', end_time = ''15:30''\<rparr>,
                       \<lparr>start = ''09:00'', end_time = ''09:30''\<rparr>] \<and>
   mergeOccupied [\<lparr>start = ''14:30'', end_time = ''15:30''\<rparr>,
                  \<lparr>start = ''09:00'', end_time = ''09:30''\<rparr>] ''09:00'' ''19:30''
     = [\<lparr>start = ''09:00'', end_time = ''09:30''\<rparr>, \<lparr>start = ''14:30'', end_time = ''15:30''\<rparr>] \<and>
   findFreeSlots [\<lparr>start = ''14:30'', end_time = ''15:30''\<rparr>,
                  \<lparr>start = ''09:00'', end_time = ''09:30''\<rparr>] ''09:00'' ''19:30''
     = [\<lparr>start = ''09:30'', end_time = ''14:30''\<rparr>, \<lparr>start = ''15:30'', end_time = ''19:30''\<rparr>] \<and>
   tiles (minutesOf ''09:00'') (minutesOf ''19:30'')
     (sort_key fst (map slot_minutes
        (mergeOccupied [\<lparr>start = ''14:30'', end_time = ''15:30''\<rparr>,
                        \<lparr>start = ''09:00'', end_time = ''09:30''\<rparr>] ''09:00'' ''19:30''
         @ findFreeSlots [\<lparr>start = ''14:30'', end_time = ''15:30''\<rparr>,
                          \<lparr>start = ''09:00'', end_time = ''09:30''\<rparr>] ''09:00'' ''19:30'')))"
proof -
  let ?occ = "[\<lparr>start = ''14:30'', end_time = ''15:30''\<rparr>,
               \<lparr>start = ''09:00'', end_time = ''09:30''\<rparr>]"
  have h: "isClockTime ''09:00''" "isClockTime ''19:30''"
    "minutesOf ''09:00'' \<le> minutesOf ''19:30''" "list_all clockSlot ?occ"
    by code_simp+
  have v: "mergeOccupied ?occ ''09:00'' ''19:30''
     = [\<lparr>start = ''09:00'', end_time = ''09:30''\<rparr>, \<lparr>start = ''14:30'', end_time = ''15:30''\<rparr>]"
    "findFreeSlots ?occ ''09:00'' ''19:30''
     = [\<lparr>start = ''09:30'', end_time = ''14:30''\<rparr>, \<lparr>start = ''15:30'', end_time = ''19:30''\<rparr>]"
    by code_simp+
  from C1_tiling[OF h] h v show ?thesis by blast
qed

text \<open>
  C2, as stated: \<open>findFreeRooms\<close> walks a fixed roster, so that a room outside it, such as
  999, is ignored. The code walks the rooms of the supplied records instead. Room 999 is
  not in \<open>ALL_ROOMS\<close>, yet a record of it puts it in the result; with no record at all no
  room is reported; and 999 is still in the result when the records have first gone
  through the caller's \<open>getCompleteSchedules\<close>.
\<close>

theorem C2_counterexample:
  "''999'' \<notin> set ALL_ROOMS
   \<and> findFreeRooms [\<lparr>room = ''999'', day = ''Mon'', occupied = []\<rparr>] ''Mon'' None None
       = [freeAllDay ''999'' ''Mon'']
   \<and> findFreeRooms [] ''Mon'' None None = []
   \<and> ''999'' \<in> set (map fr_room (findFreeRooms
         (getCompleteSchedules [\<lparr>room = ''999'', day = ''Mon'', occupied = []\<rparr>])
         ''Mon'' None None))"
  by code_simp

text \<open>
  C2, amended: \<open>findFreeRooms\<close> computes free slots for the rooms of the supplied records.
  The room of every result is the room of a supplied record. A supplied room with no
  occupied slot on the queried day is in the unfiltered result as free for the whole
  operating window. The roster enters through the caller: after \<open>getCompleteSchedules\<close>,
  every room of \<open>ALL_ROOMS\<close> with no occupied slot on a day of \<open>DAYS\<close> is in the
  unfiltered result as free for the whole window.
\<close>

theorem C2_rooms_of_the_data:
  "(r \<in> set (findFreeRooms S dy t m) \<longrightarrow> fr_room r \<in> room ` set S)
   \<and> (sch \<in> set S \<and> noOccupancy S (room sch) dy \<longrightarrow>
        freeAllDay (room sch) dy \<in> set (findFreeRooms S dy None None))
   \<and> (rm \<in> set ALL_ROOMS \<and> dy \<in> set DAYS \<and> noOccupancy S rm dy \<longrightarrow>
        freeAllDay rm dy \<in> set (findFreeRooms (getCompleteSchedules S) dy None None))"
proof (intro conjI impI)
  assume "r \<in> set (findFreeRooms S dy t m)"
  then show "fr_room r \<in> room ` set S" by (rule result_room)
next
  assume "sch \<in> set S \<and> noOccupancy S (room sch) dy"
  then show "freeAllDay (room sch) dy \<in> set (findFreeRooms S dy None None)"
    using free_all_day by blast
next
  assume a: "rm \<in> set ALL_ROOMS \<and> dy \<in> set DAYS \<and> noOccupancy S rm dy"
  let ?G = "getCompleteSchedules S"
  from getCompleteSchedules_roster[of rm dy S] a obtain g where
    g: "g \<in> set ?G" "room g = rm" "day g = dy" and
    sl: "\<forall>g \<in> set ?G. room g = rm \<and> day g = dy \<longrightarrow>
          (\<forall>sl \<in> set (occupied g). \<exists>s \<in> set S. room s = rm \<and> day s = dy \<and> sl \<in> set (occupied s))"
    by blast
  have no: "\<forall>s \<in> set S. room s = rm \<and> day s = dy \<longrightarrow> occupied s = []"
    using a by (simp add: noOccupancy_def list_all_iff)
  have "\<forall>g \<in> set ?G. room g = rm \<and> day g = dy \<longrightarrow> occupied g = []"
  proof (intro ballI impI)
    fix g' assume g': "g' \<in> set ?G" "room g' = rm \<and> day g' = dy"
    show "occupied g' = []"
    proof (rule ccontr)
      assume "occupied g' \<noteq> []"
      then obtain x where "x \<in> set (occupied g')" by (cases "occupied g'") auto
      with sl g' obtain s where "s \<in> set S" "room s = rm \<and> day s = dy" "x \<in> set (occupied s)"
        by blast
      with no show False by auto
    qed
  qed
  then have "noOccupancy ?G (room g) dy"
    by (simp add: noOccupancy_def list_all_iff g(2))
  from free_all_day[OF g(1) this]
  show "freeAllDay rm dy \<in> set (findFreeRooms (getCompleteSchedules S) dy None None)"
    by (simp add: g(2))
qed

theorem C2_rooms_of_the_data_witness:
  "freeAllDay ''999'' ''Mon'' \<in> set (findFreeRooms
      [\<lparr>room = ''999'', day = ''Mon'', occupied = []\<rparr>,
       \<lparr>room = ''401'', day = ''Mon'', occupied = [\<lparr>start = ''09:00'', end_time = ''10:00''\<rparr>]\<rparr>]
      ''Mon'' None None)
   \<and> ''999'' \<in> room ` set
      [\<lparr>room = ''999'', day = ''Mon'', occupied = []\<rparr>,
       \<lparr>room = ''401'', day = ''Mon'', occupied = [\<lparr>start = ''09:00'', end_time = ''10:00''\<rparr>]\<rparr>]
   \<and> noOccupancy
      [\<lparr>room = ''999'', day = ''Mon'', occupied = []\<rparr>,
       \<lparr>room = ''401'', day = ''Mon'', occupied = [\<lparr>start = ''09:00'', end_time = ''10:00''\<rparr>]\<rparr>]
      ''999'' ''Mon''
   \<and> ''402'' \<in> set ALL_ROOMS \<and> ''Mon'' \<in> set DAYS
   \<and> noOccupancy
      [\<lparr>room = ''999'', day = ''Mon'', occupied = []\<rparr>,
       \<lparr>room = ''401'', day = ''Mon'', occupied = [\<lparr>start = ''09:00'', end_time = ''10:00''\<rparr>]\<rparr>]
      ''402'' ''Mon''
   \<and> freeAllDay ''402'' ''Mon'' \<in> set (findFreeRooms (getCompleteSchedules
      [\<lparr>room = ''999'', day = ''Mon'', occupied = []\<rparr>,
       \<lparr>room = ''401'', day = ''Mon'', occupied = [\<lparr>start = ''09:00'', end_time = ''10:00''\<rparr>]\<rparr>])
      ''Mon'' None None)"
proof -
  let ?s = "\<lparr>room = ''999'', day = ''Mon'', occupied = []\<rparr>"
  let ?S = "[?s,
       \<lparr>room = ''401'', day = ''Mon'', occupied = [\<lparr>start = ''09:00'', end_time = ''10:00''\<rparr>]\<rparr>]"
  have h1: "?s \<in> set ?S \<and> noOccupancy ?S (room ?s) ''Mon''"
    by (simp add: noOccupancy_def)
  have h2: "''402'' \<in> set ALL_ROOMS \<and> ''Mon'' \<in> set DAYS \<and> noOccupancy ?S ''402'' ''Mon''"
    by (simp add: noOccupancy_def ALL_ROOMS_def DAYS_def)
  from C2_rooms_of_the_data[of "freeAllDay ''999'' ''Mon''" ?S "''Mon''" None None ?s "''402''"]
  have c: "(freeAllDay ''999'' ''Mon'' \<in> set (findFreeRooms ?S ''Mon'' None None) \<longrightarrow>
          fr_room (freeAllDay ''999'' ''Mon'') \<in> room ` set ?S)"
      "freeAllDay (room ?s) ''Mon'' \<in> set (findFreeRooms ?S ''Mon'' None None)"
      "freeAllDay ''402'' ''Mon'' \<in> set (findFreeRooms (getCompleteSchedules ?S) ''Mon'' None None)"
    using h1 h2 by blast+
  from c(2) have m: "freeAllDay ''999'' ''Mon'' \<in> set (findFreeRooms ?S ''Mon'' None None)"
    by simp
  with c(1) have "''999'' \<in> room ` set ?S" by (simp add: freeAllDay_def)
  with m c(3) h1 h2 show ?thesis by simp
qed

text \<open>
  C3, as stated: a malformed clock time makes the conversion fail. The code returns a
  value on each of these malformed strings: an hour of 25 gives 1500 minutes, a minute
  of 75 gives 615, and a string with no colon or with letters gives \<open>NaN\<close>.
\<close>

theorem C3_counterexample:
  "timeToMinutes ''25:00'' = Num 1500 \<and> timeToMinutes ''09:75'' = Num 615
     \<and> timeToMinutes ''0900'' = NaN \<and> timeToMinutes ''ab:cd'' = NaN"
  by code_simp

text \<open>
  C3, amended: \<open>timeToMinutes\<close> validates nothing and never fails. A string without a
  colon converts to \<open>NaN\<close>, and two non-empty runs of at most 14 decimal digits around a
  colon convert to hours times 60 plus minutes, whatever the range of either.
\<close>

theorem C3_timeToMinutes_unchecked:
  "(CHR '':'' \<notin> set s \<longrightarrow> timeToMinutes s = NaN) \<and>
   (h \<noteq> [] \<and> list_all is_digit h \<and> length h \<le> 14
      \<and> m \<noteq> [] \<and> list_all is_digit m \<and> length m \<le> 14 \<longrightarrow>
      timeToMinutes (h @ '':'' @ m) = Num (decimal_val h * 60 + decimal_val m))"
  using timeToMinutes_no_colon timeToMinutes_digits by blast

theorem C3_timeToMinutes_unchecked_witness:
  "CHR '':'' \<notin> set ''0900'' \<and> timeToMinutes ''0900'' = NaN \<and>
   list_all is_digit ''25'' \<and> list_all is_digit ''00'' \<and>
   timeToMinutes (''25'' @ '':'' @ ''00'') = Num (decimal_val ''25'' * 60 + decimal_val ''00'') \<and>
   decimal_val ''25'' * 60 + decimal_val ''00'' = 1500"
  using C3_timeToMinutes_unchecked [of "''0900''" "''25''" "''00''"]
  by (simp add: is_digit_def decimal_val_def digit_val_def)

text \<open>
  C4: on slots and a window of clock times, the merged list is sorted by start, its slots
  are non-empty and lie inside the operating window, and any two of them are apart by a
  gap, so that touching and overlapping input slots have been merged; the minutes it
  covers are those the input slots occupy inside the window, so nothing else was dropped
  than the slots that are empty after clipping. The overlapping slots 10:00 to 11:00 and
  10:30 to 12:00 merge into 10:00 to 12:00.
\<close>

theorem C4_merger_output:
  "(isClockTime ws \<and> isClockTime we \<and> list_all clockSlot occ \<longrightarrow>
      list_all validSlot (mergeOccupied occ ws we) \<and>
      sorted (map fst (map slot_minutes (mergeOccupied occ ws we))) \<and>
      separated (map slot_minutes (mergeOccupied occ ws we)) \<and>
      in_window (minutesOf ws) (minutesOf we) (map slot_minutes (mergeOccupied occ ws we)) \<and>
      cover (map slot_minutes (mergeOccupied occ ws we))
        = occupied_minutes (minutesOf ws) (minutesOf we) occ)
   \<and> mergeOccupied [\<lparr>start = ''10:00'', end_time = ''11:00''\<rparr>,
                      \<lparr>start = ''10:30'', end_time = ''12:00''\<rparr>]
        (start OPERATING_HOURS) (end_time OPERATING_HOURS)
       = [\<lparr>start = ''10:00'', end_time = ''12:00''\<rparr>]"
proof
  show "isClockTime ws \<and> isClockTime we \<and> list_all clockSlot occ \<longrightarrow>
      list_all validSlot (mergeOccupied occ ws we) \<and>
      sorted (map fst (map slot_minutes (mergeOccupied occ ws we))) \<and>
      separated (map slot_minutes (mergeOccupied occ ws we)) \<and>
      in_window (minutesOf ws) (minutesOf we) (map slot_minutes (mergeOccupied occ ws we)) \<and>
      cover (map slot_minutes (mergeOccupied occ ws we))
        = occupied_minutes (minutesOf ws) (minutesOf we) occ"
  proof
    assume a0: "isClockTime ws \<and> isClockTime we \<and> list_all clockSlot occ"
    then have a: "validTime ws \<and> validTime we \<and> (\<forall>sl \<in> set occ. validSlot sl)"
      using clockSlots_valid[of occ] by (simp add: list_all_iff isClockTime_valid)
    let ?m = "merged_minutes (minutesOf ws) (minutesOf we) occ"
    have r: "list_all2 slot_is (mergeOccupied occ ws we) ?m"
      using a by (intro mergeOccupied_slot_is) simp_all
    have eq: "map slot_minutes (mergeOccupied occ ws we) = ?m"
      by (rule list_all2_slot_is_minutes[OF r])
    have nn: "\<forall>x \<in> set ?m. 0 \<le> fst x \<and> 0 \<le> snd x"
      using a by (intro merged_minutes_nonneg) (simp add: validTime_minutesOf)
    have "\<forall>sl \<in> set (mergeOccupied occ ws we). validSlot sl"
      by (rule list_all2_slot_is_valid[OF r nn])
    then have "list_all validSlot (mergeOccupied occ ws we)"
      by (simp add: list_all_iff)
    then show "list_all validSlot (mergeOccupied occ ws we) \<and>
      sorted (map fst (map slot_minutes (mergeOccupied occ ws we))) \<and>
      separated (map slot_minutes (mergeOccupied occ ws we)) \<and>
      in_window (minutesOf ws) (minutesOf we) (map slot_minutes (mergeOccupied occ ws we)) \<and>
      cover (map slot_minutes (mergeOccupied occ ws we))
        = occupied_minutes (minutesOf ws) (minutesOf we) occ"
      unfolding eq
      using merged_minutes_separated merged_minutes_in_window merged_minutes_cover
        separated_sorted[OF merged_minutes_separated]
      by blast
  qed
next
  show "mergeOccupied [\<lparr>start = ''10:00'', end_time = ''11:00''\<rparr>,
                      \<lparr>start = ''10:30'', end_time = ''12:00''\<rparr>]
        (start OPERATING_HOURS) (end_time OPERATING_HOURS)
       = [\<lparr>start = ''10:00'', end_time = ''12:00''\<rparr>]"
    by code_simp
qed

theorem C4_merger_output_witness:
  "isClockTime ''09:00'' \<and> isClockTime ''19:30'' \<and>
   list_all clockSlot [\<lparr>start = ''14:30'', end_time = ''15:30''\<rparr>,
                       \<lparr>start = ''08:00'', end_time = ''09:30''\<rparr>,
                       \<lparr>start = ''12:00'', end_time = ''11:00''\<rparr>,
                       \<lparr>start = ''09:30'', end_time = ''10:00''\<rparr>] \<and>
   mergeOccupied [\<lparr>start = ''14:30'', end_time = ''15:30''\<rparr>,
                  \<lparr>start = ''08:00'', end_time = ''09:30''\<rparr>,
                  \<lparr>start = ''12:00'', end_time = ''11:00''\<rparr>,
                  \<lparr>start = ''09:30'', end_time = ''10:00''\<rparr>] ''09:00'' ''19:30''
     = [\<lparr>start = ''09:00'', end_time = ''10:00''\<rparr>, \<lparr>start = ''14:30'', end_time = ''15:30''\<rparr>] \<and>
   separated (map slot_minutes
     (mergeOccupied [\<lparr>start = ''14:30'', end_time = ''15:30''\<rparr>,
                  \<lparr>start = ''08:00'', end_time = ''09:30''\<rparr>,
                  \<lparr>start = ''12:00'', end_time = ''11:00''\<rparr>,
                  \<lparr>start = ''09:30'', end_time = ''10:00''\<rparr>] ''09:00'' ''19:30''))"
proof -
  let ?occ = "[\<lparr>start = ''14:30'', end_time = ''15:30''\<rparr>,
                 \<lparr>start = ''08:00'', end_time = ''09:30''\<rparr>,
                 \<lparr>start = ''12:00'', end_time = ''11:00''\<rparr>,
                 \<lparr>start = ''09:30'', end_time = ''10:00''\<rparr>]"
  have h: "isClockTime ''09:00'' \<and> isClockTime ''19:30'' \<and> list_all clockSlot ?occ"
    by code_simp
  have v: "mergeOccupied ?occ ''09:00'' ''19:30''
     = [\<lparr>start = ''09:00'', end_time = ''10:00''\<rparr>, \<lparr>start = ''14:30'', end_time = ''15:30''\<rparr>]"
    by code_simp
  from C4_merger_output[of "''09:00''" "''19:30''" ?occ] h
  have "separated (map slot_minutes (mergeOccupied ?occ ''09:00'' ''19:30''))"
    by blast
  with h v show ?thesis by blast
qed

text \<open>
  C5, filter correctness: on schedules of clock times, a query with a clock time \<open>T\<close> as
  target returns only results whose interval contains \<open>T\<close>, the end excluded, and a
  query with a minimum duration returns no result whose duration is below it.
\<close>

theorem C5_filters:
  assumes "clockSchedules S"
  shows "(isClockTime T \<and> r \<in> set (findFreeRooms S dy (Some T) m) \<longrightarrow>
            js_le (timeToMinutes (freeFrom r)) (timeToMinutes T)
            \<and> js_lt (timeToMinutes T) (timeToMinutes (freeTill r)))
       \<and> (r \<in> set (findFreeRooms S dy t (Some md)) \<longrightarrow> \<not> js_lt (duration r) md)"
proof -
  have valid: "validSchedules S"
    using assms by (rule clockSchedules_valid)
  show ?thesis
  proof (rule conjI; rule impI)
    assume a0: "isClockTime T \<and> r \<in> set (findFreeRooms S dy (Some T) m)"
    then have a: "validTime T \<and> r \<in> set (findFreeRooms S dy (Some T) m)"
      using isClockTime_valid by blast
    from result_cases[OF valid conjunct2[OF a]] obtain sl a' b where
      c: "r = result_of (fr_room r) dy sl" "keeps (Some T) m sl"
        "timeToMinutes (start sl) = Num a'" "timeToMinutes (end_time sl) = Num b"
      by metis
    obtain n where n: "timeToMinutes T = Num n" using a by (auto simp: validTime_iff)
    have ne: "T \<noteq> []" using n by (auto simp: timeToMinutes_def)
    have f: "freeFrom r = start sl" "freeTill r = end_time sl"
      by (subst c(1), simp add: result_of_def)+
    show "js_le (timeToMinutes (freeFrom r)) (timeToMinutes T)
              \<and> js_lt (timeToMinutes T) (timeToMinutes (freeTill r))"
      using c(2) ne by (auto simp: f c(3,4) n keeps_def misses_target_def)
  next
    assume a: "r \<in> set (findFreeRooms S dy t (Some md))"
    from result_cases[OF valid a] obtain sl a' b where
      c: "r = result_of (fr_room r) dy sl" "keeps t (Some md) sl"
        "timeToMinutes (start sl) = Num a'" "timeToMinutes (end_time sl) = Num b" "a' < b"
      by metis
    have d: "duration r = Num (b - a')"
      by (subst c(1)) (simp add: result_of_def c(3,4))
    show "\<not> js_lt (duration r) md"
      using c(2,5) by (cases md) (auto simp: d keeps_def too_short_def c(3,4))
  qed
qed

theorem C5_filters_witness:
  "clockSchedules [\<lparr>room = ''402'', day = ''Tue'',
       occupied = [\<lparr>start = ''09:00'', end_time = ''09:30''\<rparr>,
                   \<lparr>start = ''14:30'', end_time = ''15:30''\<rparr>]\<rparr>] \<and>
   isClockTime ''10:00'' \<and>
   findFreeRooms [\<lparr>room = ''402'', day = ''Tue'',
       occupied = [\<lparr>start = ''09:00'', end_time = ''09:30''\<rparr>,
                   \<lparr>start = ''14:30'', end_time = ''15:30''\<rparr>]\<rparr>] ''Tue'' (Some ''10:00'') None
     = [\<lparr>fr_room = ''402'', fr_day = ''Tue'', freeFrom = ''09:30'', freeTill = ''14:30'',
         duration = Num 300\<rparr>] \<and>
   findFreeRooms [\<lparr>room = ''402'', day = ''Tue'',
       occupied = [\<lparr>start = ''09:00'', end_time = ''09:30''\<rparr>,
                   \<lparr>start = ''14:30'', end_time = ''15:30''\<rparr>]\<rparr>] ''Tue'' None (Some (Num 250))
     = [\<lparr>fr_room = ''402'', fr_day = ''Tue'', freeFrom = ''09:30'', freeTill = ''14:30'',
         duration = Num 300\<rparr>] \<and>
   js_le (timeToMinutes ''09:30'') (timeToMinutes ''10:00'') \<and>
   js_lt (timeToMinutes ''10:00'') (timeToMinutes ''14:30'') \<and>
   \<not> js_lt (Num 300) (Num 250)"
proof -
  let ?S = "[\<lparr>room = ''402'', day = ''Tue'',
       occupied = [\<lparr>start = ''09:00'', end_time = ''09:30''\<rparr>,
                   \<lparr>start = ''14:30'', end_time = ''15:30''\<rparr>]\<rparr>]"
  let ?r = "\<lparr>fr_room = ''402'', fr_day = ''Tue'', freeFrom = ''09:30'', freeTill = ''14:30'',
         duration = Num 300\<rparr>"
  have h: "clockSchedules ?S" "isClockTime ''10:00''" by code_simp+
  have v: "findFreeRooms ?S ''Tue'' (Some ''10:00'') None = [?r]"
    "findFreeRooms ?S ''Tue'' None (Some (Num 250)) = [?r]" by code_simp+
  then have "?r \<in> set (findFreeRooms ?S ''Tue'' (Some ''10:00'') None)"
    "?r \<in> set (findFreeRooms ?S ''Tue'' None (Some (Num 250)))" by simp_all
  with C5_filters[OF h(1), of "''10:00''" ?r "''Tue''" None None "Num 250"] h v
  show ?thesis by simp
qed

text \<open>
  C6, sort correctness: on schedules of clock times and rooms whose identifiers
  \<open>parseInt\<close> reads as numbers, the result is ordered: for any entry and any later one,
  the duration of the first is not smaller, and when the durations are equal the room
  number of the first is not greater, the numbers compared as integers. In the witness
  room 402 comes before 501 and 501 before 4010, at equal durations.
\<close>

theorem C6_sorted:
  assumes "clockSchedules S" "numericRooms S"
  shows "sorted_wrt result_order (findFreeRooms S dy t m)"
proof -
  have valid: "validSchedules S" "numericRooms S"
    using assms by (simp_all add: clockSchedules_valid)
  let ?un = "foldl (room_step dy t m) [] (mergeRoomSchedules S)"
  have un: "set ?un = set (findFreeRooms S dy t m)"
    by (simp add: findFreeRooms_def set_js_sort)
  have num: "\<exists>d p. duration r = Num d \<and> js_parseInt (fr_room r) = Num p" if "r \<in> set ?un" for r
  proof -
    have r: "r \<in> set (findFreeRooms S dy t m)" using that un by simp
    from result_cases[OF valid(1) r] obtain sl a b where
      c: "r = result_of (fr_room r) dy sl" "fr_room r \<in> room ` set S"
      "timeToMinutes (start sl) = Num a" "timeToMinutes (end_time sl) = Num b"
      by metis
    have "duration r = Num (b - a)"
      by (subst c(1)) (simp add: result_of_def c(3,4))
    moreover have "js_parseInt (fr_room r) \<noteq> NaN"
      using c(2) valid(2) by (auto simp: numericRooms_def list_all_iff)
    ultimately show ?thesis by (cases "js_parseInt (fr_room r)") auto
  qed
  have "\<forall>x \<in> set ?un. \<forall>y \<in> set ?un.
      js_gt (compare_rooms x y) (Num 0) \<longleftrightarrow> room_key y < room_key x"
    using num compare_rooms_key by blast
  then have eq: "findFreeRooms S dy t m = sort_key room_key ?un"
    unfolding findFreeRooms_def Let_def by (rule js_sort_key)
  have "sorted (map room_key (sort_key room_key ?un))" by (rule sorted_sort_key)
  then have "sorted_wrt (\<lambda>a b. room_key a \<le> room_key b) (sort_key room_key ?un)"
    by (simp add: sorted_map)
  then have "sorted_wrt result_order (sort_key room_key ?un)"
  proof (rule sorted_wrt_mono_rel[rotated])
    fix a b assume a: "a \<in> set (sort_key room_key ?un)" "b \<in> set (sort_key room_key ?un)"
      "room_key a \<le> room_key b"
    then show "result_order a b"
      using num[of a] num[of b] room_key_order by auto
  qed
  then show ?thesis by (simp add: eq)
qed

theorem C6_sorted_witness:
  "clockSchedules
     [\<lparr>room = ''4010'', day = ''Tue'', occupied = [\<lparr>start = ''09:00'', end_time = ''14:30''\<rparr>]\<rparr>,
      \<lparr>room = ''501'', day = ''Tue'', occupied = [\<lparr>start = ''09:00'', end_time = ''14:30''\<rparr>]\<rparr>,
      \<lparr>room = ''402'', day = ''Tue'', occupied = [\<lparr>start = ''09:00'', end_time = ''14:30''\<rparr>]\<rparr>,
      \<lparr>room = ''401'', day = ''Tue'', occupied = [\<lparr>start = ''09:00'', end_time = ''16:30''\<rparr>]\<rparr>,
      \<lparr>room = ''505'', day = ''Tue'', occupied = []\<rparr>] \<and>
   numericRooms
     [\<lparr>room = ''4010'', day = ''Tue'', occupied = [\<lparr>start = ''09:00'', end_time = ''14:30''\<rparr>]\<rparr>,
      \<lparr>room = ''501'', day = ''Tue'', occupied = [\<lparr>start = ''09:00'', end_time = ''14:30''\<rparr>]\<rparr>,
      \<lparr>room = ''402'', day = ''Tue'', occupied = [\<lparr>start = ''09:00'', end_time = ''14:30''\<rparr>]\<rparr>,
      \<lparr>room = ''401'', day = ''Tue'', occupied = [\<lparr>start = ''09:00'', end_time = ''16:30''\<rparr>]\<rparr>,
      \<lparr>room = ''505'', day = ''Tue'', occupied = []\<rparr>] \<and>
   map (\<lambda>r. (fr_room r, duration r)) (findFreeRooms
     [\<lparr>room = ''4010'', day = ''Tue'', occupied = [\<lparr>start = ''09:00'', end_time = ''14:30''\<rparr>]\<rparr>,
      \<lparr>room = ''501'', day = ''Tue'', occupied = [\<lparr>start = ''09:00'', end_time = ''14:30''\<rparr>]\<rparr>,
      \<lparr>room = ''402'', day = ''Tue'', occupied = [\<lparr>start = ''09:00'', end_time = ''14:30''\<rparr>]\<rparr>,
      \<lparr>room = ''401'', day = ''Tue'', occupied = [\<lparr>start = ''09:00'', end_time = ''16:30''\<rparr>]\<rparr>,
      \<lparr>room = ''505'', day = ''Tue'', occupied = []\<rparr>] ''Tue'' None None)
     = [(''505'', Num 630), (''402'', Num 300), (''501'', Num 300), (''4010'', Num 300),
        (''401'', Num 180)] \<and>
   sorted_wrt result_order (findFreeRooms
     [\<lparr>room = ''4010'', day = ''Tue'', occupied = [\<lparr>start = ''09:00'', end_time = ''14:30''\<rparr>]\<rparr>,
      \<lparr>room = ''501'', day = ''Tue'', occupied = [\<lparr>start = ''09:00'', end_time = ''14:30''\<rparr>]\<rparr>,
      \<lparr>room = ''402'', day = ''Tue'', occupied = [\<lparr>start = ''09:00'', end_time = ''14:30''\<rparr>]\<rparr>,
      \<lparr>room = ''401'', day = ''Tue'', occupied = [\<lparr>start = ''09:00'', end_time = ''16:30''\<rparr>]\<rparr>,
      \<lparr>room = ''505'', day = ''Tue'', occupied = []\<rparr>] ''Tue'' None None)"
proof -
  let ?S = "[\<lparr>room = ''4010'', day = ''Tue'', occupied = [\<lparr>start = ''09:00'', end_time = ''14:30''\<rparr>]\<rparr>,
      \<lparr>room = ''501'', day = ''Tue'', occupied = [\<lparr>start = ''09:00'', end_time = ''14:30''\<rparr>]\<rparr>,
      \<lparr>room = ''402'', day = ''Tue'', occupied = [\<lparr>start = ''09:00'', end_time = ''14:30''\<rparr>]\<rparr>,
      \<lparr>room = ''401'', day = ''Tue'', occupied = [\<lparr>start = ''09:00'', end_time = ''16:30''\<rparr>]\<rparr>,
      \<lparr>room = ''505'', day = ''Tue'', occupied = []\<rparr>]"
  have h: "clockSchedules ?S" "numericRooms ?S" by code_simp+
  have v: "map (\<lambda>r. (fr_room r, duration r)) (findFreeRooms ?S ''Tue'' None None)
     = [(''505'', Num 630), (''402'', Num 300), (''501'', Num 300), (''4010'', Num 300),
        (''401'', Num 180)]"
    by code_simp
  from C6_sorted[OF h] h v show ?thesis by blast
qed

text \<open>
  C7, duration correctness: on schedules of clock times, every result of \<open>findFreeRooms\<close>
  has \<open>freeFrom\<close> and \<open>freeTill\<close> that convert to minutes, its duration is exactly the
  difference of the two, and that difference is greater than 0.
\<close>

theorem C7_duration:
  assumes "clockSchedules S" "r \<in> set (findFreeRooms S dy t m)"
  shows "validTime (freeFrom r) \<and> validTime (freeTill r)
    \<and> duration r = Num (minutesOf (freeTill r) - minutesOf (freeFrom r))
    \<and> duration r = js_sub (timeToMinutes (freeTill r)) (timeToMinutes (freeFrom r))
    \<and> 0 < minutesOf (freeTill r) - minutesOf (freeFrom r)"
proof -
  have valid: "validSchedules S" "r \<in> set (findFreeRooms S dy t m)"
    using assms by (simp_all add: clockSchedules_valid)
  from result_cases[OF valid] obtain sl a b where
    c: "r = result_of (fr_room r) dy sl" "timeToMinutes (start sl) = Num a"
      "timeToMinutes (end_time sl) = Num b" "540 \<le> a" "a < b" "b \<le> 1170"
    by metis
  have "freeFrom r = start sl" "freeTill r = end_time sl"
    "duration r = js_sub (timeToMinutes (end_time sl)) (timeToMinutes (start sl))"
    by (subst c(1), simp add: result_of_def)+
  then show ?thesis using c(2-6) by (simp add: validTime_iff minutesOf_def)
qed

theorem C7_duration_witness:
  "clockSchedules [\<lparr>room = ''501'', day = ''Mon'',
       occupied = [\<lparr>start = ''09:00'', end_time = ''11:30''\<rparr>]\<rparr>] \<and>
   findFreeRooms [\<lparr>room = ''501'', day = ''Mon'',
       occupied = [\<lparr>start = ''09:00'', end_time = ''11:30''\<rparr>]\<rparr>] ''Mon'' None None
     = [\<lparr>fr_room = ''501'', fr_day = ''Mon'', freeFrom = ''11:30'', freeTill = ''19:30'',
         duration = Num 480\<rparr>] \<and>
   Num 480 = Num (minutesOf ''19:30'' - minutesOf ''11:30'')"
proof -
  let ?S = "[\<lparr>room = ''501'', day = ''Mon'',
       occupied = [\<lparr>start = ''09:00'', end_time = ''11:30''\<rparr>]\<rparr>]"
  let ?r = "\<lparr>fr_room = ''501'', fr_day = ''Mon'', freeFrom = ''11:30'', freeTill = ''19:30'',
         duration = Num 480\<rparr>"
  have h: "clockSchedules ?S" by code_simp
  have v: "findFreeRooms ?S ''Mon'' None None = [?r]" by code_simp
  then have "?r \<in> set (findFreeRooms ?S ''Mon'' None None)" by simp
  from C7_duration[OF h this] h v show ?thesis by simp
qed

text \<open>
  C8: merging is idempotent. On slots and a window of clock times, the merger applied to
  its own output, with the same window, returns that output unchanged.
\<close>

theorem C8_merge_idempotent:
  assumes "isClockTime ws" "isClockTime we" "list_all clockSlot occ"
  shows "mergeOccupied (mergeOccupied occ ws we) ws we = mergeOccupied occ ws we"
proof -
  have valid: "validTime ws" "validTime we" "list_all validSlot occ"
    using assms by (simp_all add: isClockTime_valid clockSlots_valid)
  have vo: "\<forall>sl \<in> set occ. validSlot sl" using valid(3) by (simp add: list_all_iff)
  let ?a = "minutesOf ws" and ?b = "minutesOf we"
  let ?m = "merged_minutes ?a ?b occ"
  have nn: "\<forall>x \<in> set ?m. 0 \<le> fst x \<and> 0 \<le> snd x"
    using valid(1) by (intro merged_minutes_nonneg) (simp add: validTime_minutesOf)
  have m: "mergeOccupied occ ws we = map slot_of ?m"
    by (rule mergeOccupied_refines[OF valid(1,2) vo])
  have "list_all2 slot_is (map slot_of ?m) ?m" by (rule list_all2_slot_of[OF nn])
  then have v: "\<forall>sl \<in> set (map slot_of ?m). validSlot sl"
    using nn by (rule list_all2_slot_is_valid)
  have "cover (merged_minutes ?a ?b (map slot_of ?m)) = cover ?m"
    by (simp only: merged_minutes_cover occupied_minutes_slot_of[OF merged_minutes_in_window nn])
  then have "merged_minutes ?a ?b (map slot_of ?m) = ?m"
    by (intro separated_unique merged_minutes_separated)
  then show ?thesis
    unfolding m mergeOccupied_refines[OF valid(1,2) v] by simp
qed

theorem C8_merge_idempotent_witness:
  "isClockTime ''09:00'' \<and> isClockTime ''19:30'' \<and>
   list_all clockSlot [\<lparr>start = ''10:30'', end_time = ''12:00''\<rparr>,
                       \<lparr>start = ''10:00'', end_time = ''11:00''\<rparr>,
                       \<lparr>start = ''18:00'', end_time = ''20:00''\<rparr>] \<and>
   mergeOccupied [\<lparr>start = ''10:30'', end_time = ''12:00''\<rparr>,
                  \<lparr>start = ''10:00'', end_time = ''11:00''\<rparr>,
                  \<lparr>start = ''18:00'', end_time = ''20:00''\<rparr>] ''09:00'' ''19:30''
     = [\<lparr>start = ''10:00'', end_time = ''12:00''\<rparr>, \<lparr>start = ''18:00'', end_time = ''19:30''\<rparr>] \<and>
   mergeOccupied [\<lparr>start = ''10:00'', end_time = ''12:00''\<rparr>,
                  \<lparr>start = ''18:00'', end_time = ''19:30''\<rparr>] ''09:00'' ''19:30''
     = [\<lparr>start = ''10:00'', end_time = ''12:00''\<rparr>, \<lparr>start = ''18:00'', end_time = ''19:30''\<rparr>]"
proof -
  let ?occ = "[\<lparr>start = ''10:30'', end_time = ''12:00''\<rparr>,
                 \<lparr>start = ''10:00'', end_time = ''11:00''\<rparr>,
                 \<lparr>start = ''18:00'', end_time = ''20:00''\<rparr>]"
  have h: "isClockTime ''09:00''" "isClockTime ''19:30''" "list_all clockSlot ?occ"
    by code_simp+
  have v: "mergeOccupied ?occ ''09:00'' ''19:30''
     = [\<lparr>start = ''10:00'', end_time = ''12:00''\<rparr>, \<lparr>start = ''18:00'', end_time = ''19:30''\<rparr>]"
    by code_simp
  from C8_merge_idempotent[OF h] v h show ?thesis by simp
qed

text \<open>
  C9: merging does not depend on the order of the input. On slots and a window of clock
  times, any permutation of the occupied slots merges to the identical list.
\<close>

theorem C9_merge_order_invariant:
  assumes "isClockTime ws" "isClockTime we" "list_all clockSlot occ" "mset occ' = mset occ"
  shows "mergeOccupied occ' ws we = mergeOccupied occ ws we"
proof -
  have valid: "validTime ws" "validTime we" "list_all validSlot occ" "mset occ' = mset occ"
    using assms by (simp_all add: isClockTime_valid clockSlots_valid)
  have vo: "\<forall>sl \<in> set occ. validSlot sl" using valid(3) by (simp add: list_all_iff)
  let ?a = "minutesOf ws" and ?b = "minutesOf we"
  have s: "set occ' = set occ" using valid(4) by (rule mset_eq_setD)
  then have v: "\<forall>sl \<in> set occ'. validSlot sl" using vo by simp
  have "cover (merged_minutes ?a ?b occ') = cover (merged_minutes ?a ?b occ)"
    by (simp add: merged_minutes_cover occupied_minutes_def s)
  then have "merged_minutes ?a ?b occ' = merged_minutes ?a ?b occ"
    by (intro separated_unique merged_minutes_separated)
  then show ?thesis
    by (simp add: mergeOccupied_refines[OF valid(1,2) vo] mergeOccupied_refines[OF valid(1,2) v])
qed

theorem C9_merge_order_invariant_witness:
  "isClockTime ''09:00'' \<and> isClockTime ''19:30'' \<and>
   list_all clockSlot [\<lparr>start = ''10:00'', end_time = ''11:00''\<rparr>,
                       \<lparr>start = ''10:00'', end_time = ''10:30''\<rparr>,
                       \<lparr>start = ''09:00'', end_time = ''09:30''\<rparr>] \<and>
   mset [\<lparr>start = ''09:00'', end_time = ''09:30''\<rparr>,
         \<lparr>start = ''10:00'', end_time = ''10:30''\<rparr>,
         \<lparr>start = ''10:00'', end_time = ''11:00''\<rparr>]
     = mset [\<lparr>start = ''10:00'', end_time = ''11:00''\<rparr>,
             \<lparr>start = ''10:00'', end_time = ''10:30''\<rparr>,
             \<lparr>start = ''09:00'', end_time = ''09:30''\<rparr>] \<and>
   mergeOccupied [\<lparr>start = ''09:00'', end_time = ''09:30''\<rparr>,
                  \<lparr>start = ''10:00'', end_time = ''10:30''\<rparr>,
                  \<lparr>start = ''10:00'', end_time = ''11:00''\<rparr>] ''09:00'' ''19:30''
     = mergeOccupied [\<lparr>start = ''10:00'', end_time = ''11:00''\<rparr>,
                      \<lparr>start = ''10:00'', end_time = ''10:30''\<rparr>,
                      \<lparr>start = ''09:00'', end_time = ''09:30''\<rparr>] ''09:00'' ''19:30''"
proof -
  let ?occ = "[\<lparr>start = ''10:00'', end_time = ''11:00''\<rparr>,
                 \<lparr>start = ''10:00'', end_time = ''10:30''\<rparr>,
                 \<lparr>start = ''09:00'', end_time = ''09:30''\<rparr>]"
  let ?occ' = "[\<lparr>start = ''09:00'', end_time = ''09:30''\<rparr>,
         \<lparr>start = ''10:00'', end_time = ''10:30''\<rparr>,
         \<lparr>start = ''10:00'', end_time = ''11:00''\<rparr>]"
  have h: "isClockTime ''09:00''" "isClockTime ''19:30''" "list_all clockSlot ?occ"
    by code_simp+
  have p: "mset ?occ' = mset ?occ" by (simp add: add_mset_commute)
  from C9_merge_order_invariant[OF h p] h p show ?thesis by blast
qed

text \<open>
  C10: on schedules of clock times and for a clock time \<open>T\<close> as target, the result of
  \<open>findFreeRooms\<close> holds at most one entry per room: the room identifiers of the result
  are pairwise distinct, since the free slots of one room are apart and at most one of
  them contains \<open>T\<close>.
\<close>

theorem C10_one_result_per_room:
  assumes "clockSchedules S" "isClockTime T"
  shows "distinct (map fr_room (findFreeRooms S dy (Some T) m))"
proof -
  have valid: "validSchedules S" "validTime T"
    using assms by (simp_all add: clockSchedules_valid isClockTime_valid)
  let ?un = "concat (map (room_results dy (Some T) m) (mergeRoomSchedules S))"
  have "\<forall>entry \<in> set (mergeRoomSchedules S).
      length (room_results dy (Some T) m entry) \<le> 1
      \<and> (\<forall>r \<in> set (room_results dy (Some T) m entry). fr_room r = fst entry)"
    using room_results_at_most_one[OF valid]
    by (auto simp: room_results_def result_of_def)
  then have d: "distinct (map fr_room ?un)"
    by (rule distinct_concat_keys[OF mergeRoomSchedules_distinct])
  have "mset (map fr_room (findFreeRooms S dy (Some T) m)) = mset (map fr_room ?un)"
    by (simp add: findFreeRooms_def mset_js_sort foldl_room_step)
  then show ?thesis using d by (metis mset_eq_imp_distinct_iff)
qed

theorem C10_one_result_per_room_witness:
  "clockSchedules [\<lparr>room = ''402'', day = ''Tue'',
       occupied = [\<lparr>start = ''09:00'', end_time = ''09:30''\<rparr>]\<rparr>,
     \<lparr>room = ''501'', day = ''Tue'', occupied = []\<rparr>,
     \<lparr>room = ''402'', day = ''Tue'',
       occupied = [\<lparr>start = ''14:30'', end_time = ''15:30''\<rparr>]\<rparr>] \<and>
   isClockTime ''14:00'' \<and>
   map fr_room (findFreeRooms [\<lparr>room = ''402'', day = ''Tue'',
       occupied = [\<lparr>start = ''09:00'', end_time = ''09:30''\<rparr>]\<rparr>,
     \<lparr>room = ''501'', day = ''Tue'', occupied = []\<rparr>,
     \<lparr>room = ''402'', day = ''Tue'',
       occupied = [\<lparr>start = ''14:30'', end_time = ''15:30''\<rparr>]\<rparr>] ''Tue'' (Some ''14:00'') None)
     = [''501'', ''402''] \<and>
   distinct (map fr_room (findFreeRooms [\<lparr>room = ''402'', day = ''Tue'',
       occupied = [\<lparr>start = ''09:00'', end_time = ''09:30''\<rparr>]\<rparr>,
     \<lparr>room = ''501'', day = ''Tue'', occupied = []\<rparr>,
     \<lparr>room = ''402'', day = ''Tue'',
       occupied = [\<lparr>start = ''14:30'', end_time = ''15:30''\<rparr>]\<rparr>] ''Tue'' (Some ''14:00'') None))"
proof -
  let ?S = "[\<lparr>room = ''402'', day = ''Tue'',
       occupied = [\<lparr>start = ''09:00'', end_time = ''09:30''\<rparr>]\<rparr>,
     \<lparr>room = ''501'', day = ''Tue'', occupied = []\<rparr>,
     \<lparr>room = ''402'', day = ''Tue'',
       occupied = [\<lparr>start = ''14:30'', end_time = ''15:30''\<rparr>]\<rparr>]"
  have h: "clockSchedules ?S" "isClockTime ''14:00''" by code_simp+
  have v: "map fr_room (findFreeRooms ?S ''Tue'' (Some ''14:00'') None) = [''501'', ''402'']"
    by code_simp
  from C10_one_result_per_room[OF h] h v show ?thesis by blast
qed

end
